theory Spec2Isabelle
  imports Complex_Main "HOL-Library.Multiset"
begin

section \<open>Python strings\<close>

text \<open>
  Strings are \<^typ>\<open>string\<close>. The case mappings \<open>str.upper\<close> and \<open>str.lower\<close> are
  modelled on the ASCII letters; every other character is left as it is.
\<close>

abbreviation NL :: char where
  "NL \<equiv> CHR 0x0A"

definition lower_letters :: string where
  "lower_letters = ''abcdefghijklmnopqrstuvwxyz''"

definition upper_letters :: string where
  "upper_letters = ''ABCDEFGHIJKLMNOPQRSTUVWXYZ''"

definition upper_char :: "char \<Rightarrow> char" where
  "upper_char c = (case map_of (zip lower_letters upper_letters) c of Some u \<Rightarrow> u | None \<Rightarrow> c)"

definition lower_char :: "char \<Rightarrow> char" where
  "lower_char c = (case map_of (zip upper_letters lower_letters) c of Some l \<Rightarrow> l | None \<Rightarrow> c)"

definition upper :: "string \<Rightarrow> string" where
  "upper s = map upper_char s"

definition lower :: "string \<Rightarrow> string" where
  "lower s = map lower_char s"

text \<open>\<open>s.startswith(p)\<close>.\<close>

fun startswith :: "string \<Rightarrow> string \<Rightarrow> bool" where
  "startswith s [] = True"
| "startswith [] (p # ps) = False"
| "startswith (c # cs) (p # ps) = (c = p \<and> startswith cs ps)"

text \<open>\<open>p in s\<close> for two strings.\<close>

fun str_in :: "string \<Rightarrow> string \<Rightarrow> bool" where
  "str_in p [] = (p = [])"
| "str_in p (c # cs) = (startswith (c # cs) p \<or> str_in p cs)"

text \<open>\<open>s.split('\n')\<close>: never empty, one more piece than there are newlines.\<close>

fun split_nl :: "string \<Rightarrow> string list" where
  "split_nl [] = [ [] ]"
| "split_nl (c # cs) =
     (if c = NL then [] # split_nl cs
      else (case split_nl cs of [] \<Rightarrow> [ [c] ] | l # ls \<Rightarrow> (c # l) # ls))"

text \<open>\<open>sep.join(parts)\<close>.\<close>

fun join :: "string \<Rightarrow> string list \<Rightarrow> string" where
  "join sep [] = []"
| "join sep [x] = x"
| "join sep (x # y # ys) = x @ sep @ join sep (y # ys)"

text \<open>\<open>str(n)\<close> for a non-negative integer.\<close>

definition digit_char :: "nat \<Rightarrow> char" where
  "digit_char d = ''0123456789'' ! d"

function str_nat :: "nat \<Rightarrow> string" where
  "str_nat n = (if n < 10 then [digit_char n] else str_nat (n div 10) @ [digit_char (n mod 10)])"
  by pat_completeness auto
termination
  by (relation "measure id") auto

section \<open>Exceptions and outcomes\<close>

text \<open>
  What a call into the outside world (a model request, a file read) does: it returns a value or
  raises an exception that \<open>except Exception\<close> catches, given here by its \<open>str(e)\<close>.
\<close>

datatype 'a outcome = Returns 'a | Raises string

text \<open>
  Exceptions travelling through an endpoint body: FastAPI's \<open>HTTPException(status_code, detail)\<close>
  or any other \<open>Exception\<close>, given by its text. \<open>HTTPException\<close> is a subclass of
  \<open>Exception\<close>; its \<open>__str__\<close> (Starlette) is \<open>f"{status_code}: {detail}"\<close>.
\<close>

datatype exn = HTTPException nat string | Exception string

fun str_exn :: "exn \<Rightarrow> string" where
  "str_exn (HTTPException code detail) = str_nat code @ '': '' @ detail"
| "str_exn (Exception msg) = msg"

section \<open>Files in the uploads folder\<close>

record file_entry =
  name :: string
  st_mtime :: real

text \<open>
  \<open>max(files, key=lambda p: p.stat().st_mtime)\<close> on a non-empty list: Python's \<open>max\<close> keeps
  the first element whose key is not exceeded by a later one.
\<close>

fun max_mtime_from :: "file_entry \<Rightarrow> file_entry list \<Rightarrow> file_entry" where
  "max_mtime_from best [] = best"
| "max_mtime_from best (f # fs) =
     (if st_mtime f > st_mtime best then max_mtime_from f fs else max_mtime_from best fs)"

text \<open>
  \<open>Path.glob(pattern)\<close> on one directory, for patterns made of literal characters and \<open>*\<close>.
\<close>

fun glob_match :: "string \<Rightarrow> string \<Rightarrow> bool" where
  "glob_match [] s = (s = [])"
| "glob_match (p # ps) [] = (p = CHR ''*'' \<and> glob_match ps [])"
| "glob_match (p # ps) (c # cs) =
     (if p = CHR ''*'' then glob_match ps (c # cs) \<or> glob_match (p # ps) cs
      else p = c \<and> glob_match ps cs)"

definition glob :: "file_entry list \<Rightarrow> string \<Rightarrow> file_entry list" where
  "glob dir pattern = filter (\<lambda>f. glob_match pattern (name f)) dir"

section \<open>compliance.py\<close>

subsection \<open>\<open>BrandComplianceChecker._parse_response\<close>\<close>

record parsed =
  raw_analysis :: string
  compliant :: bool
  status :: string

text \<open>The loop over the lines: the upper-cased first line holding the marker, or \<open>""\<close>.\<close>

fun find_status_line :: "string list \<Rightarrow> string" where
  "find_status_line [] = []"
| "find_status_line (line # rest) =
     (if str_in ''COMPLIANCE STATUS:'' (upper line) then upper line
      else find_status_line rest)"

definition parse_response :: "string \<Rightarrow> parsed" where
  "parse_response response_text =
     (let status_line = find_status_line (split_nl response_text);
          compliant = (str_in ''COMPLIANT'' status_line \<and> \<not> str_in ''NON-COMPLIANT'' status_line)
      in \<lparr>raw_analysis = response_text, compliant = compliant, status = status_line\<rparr>)"

subsection \<open>\<open>BrandComplianceChecker.check_compliance\<close>\<close>

text \<open>
  The result dict: either \<open>{"error": ..., "compliant": False}\<close> or the parsed response.
  The model request returns a response whose \<open>.text\<close> is a string or \<open>None\<close>, or raises.
  The prompt is the fixed template around the loaded guidelines, so the request is a function
  of the image bytes and the guidelines.
\<close>

datatype ai_result = AiError string | AiParsed parsed

definition check_compliance ::
  "(string \<Rightarrow> string \<Rightarrow> string option outcome) \<Rightarrow> string \<Rightarrow> string \<Rightarrow> exn + ai_result" where
  "check_compliance generate_content brand_guidelines image_bytes =
     (if brand_guidelines = [] then Inl (Exception ''Brand guidelines not loaded.'')
      else (case generate_content image_bytes brand_guidelines of
              Raises msg \<Rightarrow> Inr (AiError (''Compliance check failed: '' @ msg))
            | Returns None \<Rightarrow>
                Inr (AiError (''Compliance check failed: ''
                       @ [CHR 0x27] @ ''NoneType'' @ [CHR 0x27]
                       @ '' object has no attribute '' @ [CHR 0x27] @ ''split'' @ [CHR 0x27]))
            | Returns (Some text) \<Rightarrow> Inr (AiParsed (parse_response text))))"

subsection \<open>The \<open>/compliance-check\<close> endpoint\<close>

text \<open>
  The world the endpoint runs in: whether \<open>Image.open\<close> accepts the uploaded bytes, the files
  of the uploads folder in the order \<open>glob\<close> lists them, what reading a guidelines file gives
  (\<open>load_brand_guidelines\<close> returns \<open>False\<close> when the read raises), and the model.
\<close>

record cc_world =
  image_open :: "string \<Rightarrow> unit outcome"
  uploads :: "file_entry list"
  read_guidelines :: "string \<Rightarrow> string outcome"
  generate_content :: "string \<Rightarrow> string \<Rightarrow> string option outcome"

datatype cc_response =
  NoGuidelines
| Checked (cc_status: string) (cc_compliant: bool) (cc_ai_analysis: string)
          (cc_status_line: string) (cc_guideline_used: string)

text \<open>The body of the \<open>try\<close> block; \<open>Inl\<close> is an exception raised inside it.\<close>

definition compliance_check_body :: "cc_world \<Rightarrow> string \<Rightarrow> exn + cc_response" where
  "compliance_check_body w file_content =
     (case image_open w file_content of
        Raises msg \<Rightarrow> Inl (Exception msg)
      | Returns _ \<Rightarrow>
          (case glob (uploads w) ''brand_guidelines*'' of
             [] \<Rightarrow> Inr NoGuidelines
           | g # gs \<Rightarrow>
               (let guideline_file = max_mtime_from g gs in
                case read_guidelines w (name guideline_file) of
                  Raises _ \<Rightarrow> Inl (HTTPException 500 ''Failed to load brand guidelines'')
                | Returns brand_guidelines \<Rightarrow>
                    (case check_compliance (generate_content w) brand_guidelines file_content of
                       Inl e \<Rightarrow> Inl e
                     | Inr (AiError err) \<Rightarrow> Inl (HTTPException 500 err)
                     | Inr (AiParsed ai) \<Rightarrow>
                         Inr (Checked (if compliant ai then ''passed'' else ''failed'')
                                (compliant ai) (raw_analysis ai) (status ai)
                                (name guideline_file))))))"

text \<open>The endpoint: \<open>except Exception as e: raise HTTPException(500, detail=str(e))\<close>.\<close>

definition compliance_check :: "cc_world \<Rightarrow> string \<Rightarrow> exn + cc_response" where
  "compliance_check w file_content =
     (case compliance_check_body w file_content of
        Inl e \<Rightarrow> Inl (HTTPException 500 (str_exn e))
      | Inr r \<Rightarrow> Inr r)"

text \<open>A world for examples: one guidelines file, and a model that answers NON-COMPLIANT.\<close>

definition example_cc_world :: cc_world where
  "example_cc_world =
     \<lparr>image_open = (\<lambda>_. Returns ()),
      uploads = [\<lparr>name = ''brand_guidelines_a.txt'', st_mtime = 1\<rparr>],
      read_guidelines = (\<lambda>_. Returns ''Use blue''),
      generate_content = (\<lambda>_ _. Returns (Some ''COMPLIANCE STATUS: NON-COMPLIANT''))\<rparr>"

section \<open>main.py: image analysis\<close>

subsection \<open>\<open>PostData\<close>\<close>

record PostData =
  image_path :: string
  likes :: int

subsection \<open>\<open>ImageFeatureAnalyzer.categorize_posts_by_popularity\<close>\<close>

text \<open>
  \<open>int(x)\<close> truncates towards zero. The float \<open>top_percentage\<close> is a real number here and the
  product \<open>len(sorted_posts) * top_percentage\<close> is exact.
\<close>

definition py_int :: "real \<Rightarrow> int" where
  "py_int x = (if x \<ge> 0 then \<lfloor>x\<rfloor> else \<lceil>x\<rceil>)"

text \<open>
  \<open>sorted(posts, key=lambda x: x.likes, reverse=True)\<close>: descending by likes, posts with equal
  likes in their original order (Python keeps the sort stable under \<open>reverse=True\<close>).
  The slices \<open>xs[:k]\<close> and \<open>xs[k:]\<close> with \<open>k \<ge> 1\<close> are \<open>take\<close> and \<open>drop\<close>.
\<close>

definition categorize_posts_by_popularity ::
  "PostData list \<Rightarrow> real \<Rightarrow> PostData list \<times> PostData list" where
  "categorize_posts_by_popularity posts top_percentage =
     (let sorted_posts = sort_key (\<lambda>x. - likes x) posts;
          split_index = max 1 (py_int (real (length sorted_posts) * top_percentage));
          popular_posts = take (nat split_index) sorted_posts;
          less_popular_posts = drop (nat split_index) sorted_posts
      in (popular_posts, less_popular_posts))"

text \<open>Four posts for examples; two of them share the highest number of likes.\<close>

definition example_posts :: "PostData list" where
  "example_posts =
     [\<lparr>image_path = ''a.png'', likes = 5\<rparr>, \<lparr>image_path = ''b.png'', likes = 50\<rparr>,
      \<lparr>image_path = ''c.png'', likes = 20\<rparr>, \<lparr>image_path = ''d.png'', likes = 50\<rparr>]"

subsection \<open>Time, and the trace of what a run does\<close>

text \<open>
  The clock is part of the state: \<open>datetime.now()\<close> reads it and \<open>time.sleep(d)\<close> advances it
  by \<open>d\<close>. Times and durations are real numbers of seconds. The trace records every
  \<open>time.sleep\<close>, tagged by the place that calls it (the rate limiter or the retry loop), and
  every call of the wrapped request function with the image path it is for and its number.
  \<open>time.sleep\<close> raises \<open>ValueError\<close> for a negative duration.
\<close>

datatype py_error = IndexError | ValueError

fun str_py_error :: "py_error \<Rightarrow> string" where
  "str_py_error IndexError = ''list index out of range''"
| "str_py_error ValueError = ''sleep length must be non-negative''"

datatype event = Throttle real | Backoff real | Request string nat

record world =
  clock :: real
  events :: "event list"
  requests :: nat

definition sleep :: "(real \<Rightarrow> event) \<Rightarrow> real \<Rightarrow> world \<Rightarrow> py_error + world" where
  "sleep origin d w =
     (if d < 0 then Inl ValueError
      else Inr (w\<lparr>clock := clock w + d, events := events w @ [origin d]\<rparr>))"

subsection \<open>\<open>RateLimiter\<close>\<close>

record RateLimiter =
  max_requests :: int
  min_delay :: real
  request_times :: "real list"
  last_request_time :: "real option"

text \<open>\<open>RateLimiter.__init__\<close>.\<close>

definition new_RateLimiter :: "int \<Rightarrow> real \<Rightarrow> RateLimiter" where
  "new_RateLimiter max_requests_per_minute min_delay_seconds =
     \<lparr>max_requests = max_requests_per_minute, min_delay = min_delay_seconds,
      request_times = [], last_request_time = None\<rparr>"

text \<open>
  \<open>wait_if_needed\<close>, in its three steps. Each returns the limiter and the world as they are
  when it ends; \<open>request_times[0]\<close> raises \<open>IndexError\<close> on an empty list.
\<close>

definition wait_min_delay :: "RateLimiter \<Rightarrow> world \<Rightarrow> (py_error + unit) \<times> world" where
  "wait_min_delay rl w =
     (let now = clock w in
      case last_request_time rl of
        None \<Rightarrow> (Inr (), w)
      | Some last_time \<Rightarrow>
          (let time_since_last = now - last_time in
           if time_since_last < min_delay rl then
             (let wait_time = min_delay rl - time_since_last in
              case sleep Throttle wait_time w of
                Inl e \<Rightarrow> (Inl e, w)
              | Inr w' \<Rightarrow> (Inr (), w'))
           else (Inr (), w)))"

definition wait_window :: "RateLimiter \<Rightarrow> world \<Rightarrow> (py_error + unit) \<times> RateLimiter \<times> world" where
  "wait_window rl w =
     (let now = clock w;
          rl1 = rl\<lparr>request_times := filter (\<lambda>t. now - t < 60) (request_times rl)\<rparr> in
      if int (length (request_times rl1)) \<ge> max_requests rl1 then
        (case request_times rl1 of
           [] \<Rightarrow> (Inl IndexError, rl1, w)
         | oldest # _ \<Rightarrow>
             (let wait_time = 61 - (now - oldest) in
              if wait_time > 0 then
                (case sleep Throttle wait_time w of
                   Inl e \<Rightarrow> (Inl e, rl1, w)
                 | Inr w' \<Rightarrow> (Inr (), rl1\<lparr>request_times := []\<rparr>, w'))
              else (Inr (), rl1, w)))
      else (Inr (), rl1, w))"

definition wait_if_needed :: "RateLimiter \<Rightarrow> world \<Rightarrow> (py_error + unit) \<times> RateLimiter \<times> world" where
  "wait_if_needed rl w =
     (case wait_min_delay rl w of
        (Inl e, w1) \<Rightarrow> (Inl e, rl, w1)
      | (Inr _, w1) \<Rightarrow>
          (case wait_window rl w1 of
             (Inl e, rl2, w2) \<Rightarrow> (Inl e, rl2, w2)
           | (Inr _, rl2, w2) \<Rightarrow>
               (Inr (),
                rl2\<lparr>request_times := request_times rl2 @ [clock w2],
                    last_request_time := Some (clock w2)\<rparr>,
                w2)))"

subsection \<open>\<open>ImageFeatureAnalyzer\<close>\<close>

record ImageFeatureAnalyzer =
  max_retries :: int
  base_delay :: int
  rate_limiter :: RateLimiter

text \<open>\<open>ImageFeatureAnalyzer.__init__\<close>; the client and the model id play no part here.\<close>

definition new_ImageFeatureAnalyzer :: "int \<Rightarrow> int \<Rightarrow> ImageFeatureAnalyzer" where
  "new_ImageFeatureAnalyzer max_retries' base_delay' =
     \<lparr>max_retries = max_retries', base_delay = base_delay',
      rate_limiter = new_RateLimiter 5 12\<rparr>"

definition rate_limit_markers :: "string list" where
  "rate_limit_markers =
     [''429'', ''resource_exhausted'', ''quota'', ''rate limit'',
      ''too many requests'', ''limit exceeded'']"

definition is_rate_limit :: "string \<Rightarrow> bool" where
  "is_rate_limit e = (let error_str = lower e in list_ex (\<lambda>err. str_in err error_str) rate_limit_markers)"

text \<open>
  \<open>_retry_with_backoff\<close>. The wrapped function is given by what its calls do: \<open>func path k\<close> is
  the outcome of request number \<open>k\<close> of the run (what it returns, \<open>None\<close> included, or the text
  of the exception it raises) and \<open>took k\<close> the time it takes. The loop variable \<open>attempt\<close>
  runs through \<open>range(max_retries)\<close>. An exception raised inside the \<open>except\<close> block leaves
  the function.
\<close>

record 'a service =
  func :: "string \<Rightarrow> nat \<Rightarrow> 'a option outcome"
  took :: "nat \<Rightarrow> real"

definition call_func :: "string \<Rightarrow> 'a service \<Rightarrow> world \<Rightarrow> 'a option outcome \<times> world" where
  "call_func path sv w =
     (func sv path (requests w),
      w\<lparr>clock := clock w + took sv (requests w),
         events := events w @ [Request path (requests w)],
         requests := requests w + 1\<rparr>)"

function retry_loop ::
  "int \<Rightarrow> int \<Rightarrow> string \<Rightarrow> 'a service \<Rightarrow> int \<Rightarrow> RateLimiter \<times> world
     \<Rightarrow> (py_error + 'a option) \<times> RateLimiter \<times> world" where
  "retry_loop n b path sv attempt (rl, w) =
     (if attempt < n then
        (let (tried, rl1, w1) =
               (case wait_if_needed rl w of
                  (Inl e, rl', w') \<Rightarrow> (Raises (str_py_error e), rl', w')
                | (Inr _, rl', w') \<Rightarrow> (let (r, w'') = call_func path sv w' in (r, rl', w''))) in
         case tried of
           Returns result \<Rightarrow> (Inr result, rl1, w1)
         | Raises e \<Rightarrow>
             if is_rate_limit e then
               if attempt < n - 1 then
                 (let delay = b * 3 ^ nat attempt in
                  case sleep Backoff (real_of_int delay) w1 of
                    Inl err \<Rightarrow> (Inl err, rl1, w1)
                  | Inr w2 \<Rightarrow> retry_loop n b path sv (attempt + 1) (rl1, w2))
               else (Inr None, rl1, w1)
             else (Inr None, rl1, w1))
      else (Inr None, rl, w))"
  by pat_completeness auto
termination
  by (relation "measure (\<lambda>(n, b, path, sv, attempt, s). nat (n - attempt))") auto

definition retry_with_backoff ::
  "ImageFeatureAnalyzer \<Rightarrow> string \<Rightarrow> 'a service \<Rightarrow> world
     \<Rightarrow> (py_error + 'a option) \<times> ImageFeatureAnalyzer \<times> world" where
  "retry_with_backoff self path sv w =
     (let (r, rl, w') = retry_loop (max_retries self) (base_delay self) path sv 0 (rate_limiter self, w)
      in (r, self\<lparr>rate_limiter := rl\<rparr>, w'))"

text \<open>
  Reading a trace: the events other than the rate limiter's own sleeps, the image paths of the
  requests in it, and the trace of \<open>j\<close> rate-limited attempts, each followed by its backoff
  sleep, where request numbers start at \<open>c\<close> and attempt numbers at \<open>a\<close>.
\<close>

fun is_throttle :: "event \<Rightarrow> bool" where
  "is_throttle (Throttle d) = True"
| "is_throttle (Backoff d) = False"
| "is_throttle (Request path k) = False"

definition visible :: "event list \<Rightarrow> event list" where
  "visible es = filter (\<lambda>e. \<not> is_throttle e) es"

fun request_paths :: "event list \<Rightarrow> string list" where
  "request_paths [] = []"
| "request_paths (Request path k # es) = path # request_paths es"
| "request_paths (Throttle d # es) = request_paths es"
| "request_paths (Backoff d # es) = request_paths es"

definition backoff_trace :: "string \<Rightarrow> int \<Rightarrow> nat \<Rightarrow> nat \<Rightarrow> nat \<Rightarrow> event list" where
  "backoff_trace path b c a j =
     concat (map (\<lambda>k. [Request path (c + k), Backoff (real_of_int (b * 3 ^ (a + k)))]) [0..<j])"

text \<open>Services and a world for examples.\<close>

definition start_world :: world where
  "start_world = \<lparr>clock = 0, events = [], requests = 0\<rparr>"

definition always_rate_limited :: "nat service" where
  "always_rate_limited = \<lparr>func = (\<lambda>path k. Raises ''429 RESOURCE_EXHAUSTED''), took = (\<lambda>k. 1)\<rparr>"

definition twice_rate_limited :: "nat service" where
  "twice_rate_limited =
     \<lparr>func = (\<lambda>path k. if k < 2 then Raises ''Error 429: Quota'' else Returns (Some 7)),
      took = (\<lambda>k. 1)\<rparr>"

definition rate_limited_then_broken :: "nat service" where
  "rate_limited_then_broken =
     \<lparr>func = (\<lambda>path k. if k < 1 then Raises ''Too Many Requests'' else Raises ''file not found''),
      took = (\<lambda>k. 1)\<rparr>"

subsection \<open>\<open>analyze_single_image\<close> and \<open>analyze_posts_batch\<close>\<close>

text \<open>
  The feature dict the model returns: categories in the order of the JSON object, each with its
  list of phrases. \<open>analyze_single_image\<close> wraps one request (read the image, ask the model,
  parse the JSON answer) in \<open>_retry_with_backoff\<close>; whatever the request raises is an outcome
  of the service.
\<close>

type_synonym features = "(string \<times> string list) list"

definition analyze_single_image ::
  "ImageFeatureAnalyzer \<Rightarrow> features service \<Rightarrow> string \<Rightarrow> world
     \<Rightarrow> (py_error + features option) \<times> ImageFeatureAnalyzer \<times> world" where
  "analyze_single_image self sv image_path' w = retry_with_backoff self image_path' sv w"

record analyzed_post =
  post :: PostData
  features :: features

text \<open>\<open>if features:\<close> holds for a dict that is not empty; \<open>None\<close> and \<open>{}\<close> are falsy.\<close>

fun truthy :: "features option \<Rightarrow> bool" where
  "truthy None = False"
| "truthy (Some f) = (f \<noteq> [])"

fun analyze_posts_loop ::
  "features service \<Rightarrow> PostData list \<Rightarrow> analyzed_post list \<Rightarrow> ImageFeatureAnalyzer \<times> world
     \<Rightarrow> (py_error + analyzed_post list) \<times> ImageFeatureAnalyzer \<times> world" where
  "analyze_posts_loop sv [] results (self, w) = (Inr results, self, w)"
| "analyze_posts_loop sv (p # rest) results (self, w) =
     (case analyze_single_image self sv (image_path p) w of
        (Inl e, self', w') \<Rightarrow> (Inl e, self', w')
      | (Inr fs, self', w') \<Rightarrow>
          if truthy fs
          then analyze_posts_loop sv rest (results @ [\<lparr>post = p, features = the fs\<rparr>]) (self', w')
          else analyze_posts_loop sv rest results (self', w'))"

definition analyze_posts_batch ::
  "ImageFeatureAnalyzer \<Rightarrow> features service \<Rightarrow> PostData list \<Rightarrow> world
     \<Rightarrow> (py_error + analyzed_post list) \<times> ImageFeatureAnalyzer \<times> world" where
  "analyze_posts_batch self sv posts w = analyze_posts_loop sv posts [] (self, w)"

text \<open>
  What the analysis of each post yields when the posts are analysed one after the other, in
  input order, each in the state its predecessor left.
\<close>

fun analyses ::
  "features service \<Rightarrow> PostData list \<Rightarrow> ImageFeatureAnalyzer \<times> world
     \<Rightarrow> (py_error + features option) list" where
  "analyses sv [] (self, w) = []"
| "analyses sv (p # rest) (self, w) =
     (case analyze_single_image self sv (image_path p) w of
        (r, self', w') \<Rightarrow> r # analyses sv rest (self', w'))"

text \<open>The entries for the posts whose analysis is truthy, in order.\<close>

fun entries :: "PostData list \<Rightarrow> (py_error + features option) list \<Rightarrow> analyzed_post list" where
  "entries (p # ps) (Inr (Some f) # rs) =
     (if f \<noteq> [] then \<lparr>post = p, features = f\<rparr> # entries ps rs else entries ps rs)"
| "entries (p # ps) (r # rs) = entries ps rs"
| "entries ps rs = []"

text \<open>
  A model for examples: it answers for \<open>a.png\<close>, cannot read \<open>b.png\<close>, and answers for any
  other image from its fifth request on, being rate-limited before.
\<close>

definition example_model :: "features service" where
  "example_model =
     \<lparr>func = (\<lambda>path k.
        if path = ''a.png'' then Returns (Some [(''visual_style'', [''Minimal''])])
        else if path = ''b.png'' then Raises ''No such file''
        else if k < 4 then Raises ''429 quota''
        else Returns (Some [(''lighting'', [''soft'', ''warm''])])),
      took = (\<lambda>k. 2)\<rparr>"

subsection \<open>A sequence of calls to \<open>wait_if_needed\<close>\<close>

text \<open>
  The caller lets \<open>gap\<close> seconds pass before each call (since the start, or since the previous
  call came back). The result lists, for each call, whether it returned or raised, and the
  limiter and the world at that moment; \<open>return_times\<close> are the instants at which the calls
  that returned did so.
\<close>

fun wait_calls ::
  "RateLimiter \<Rightarrow> world \<Rightarrow> real list \<Rightarrow> ((py_error + unit) \<times> RateLimiter \<times> world) list" where
  "wait_calls rl w [] = []"
| "wait_calls rl w (gap # gaps) =
     (case wait_if_needed rl (w\<lparr>clock := clock w + gap\<rparr>) of
        (r, rl', w') \<Rightarrow> (r, rl', w') # wait_calls rl' w' gaps)"

fun return_times :: "((py_error + unit) \<times> RateLimiter \<times> world) list \<Rightarrow> real list" where
  "return_times [] = []"
| "return_times ((Inr u, rl, w) # rs) = clock w # return_times rs"
| "return_times ((Inl e, rl, w) # rs) = return_times rs"

text \<open>Each instant of the list is at least \<open>d\<close> after the one before it.\<close>

fun separated :: "real \<Rightarrow> real list \<Rightarrow> bool" where
  "separated d (x # y # ys) = (y - x \<ge> d \<and> separated d (y # ys))"
| "separated d ys = True"

subsection \<open>\<open>ImageFeatureAnalyzer.find_common_features\<close>\<close>

text \<open>
  \<open>str.strip()\<close> removes the white space at both ends (the ASCII characters for which
  \<open>str.isspace\<close> holds). The items of a category are strings, so \<open>str(item)\<close> is the item.
\<close>

definition is_space :: "char \<Rightarrow> bool" where
  "is_space c \<longleftrightarrow>
     c \<in> set [CHR 0x09, CHR 0x0A, CHR 0x0B, CHR 0x0C, CHR 0x0D,
               CHR 0x1C, CHR 0x1D, CHR 0x1E, CHR 0x1F, CHR 0x20]"

definition strip :: "string \<Rightarrow> string" where
  "strip s = rev (dropWhile is_space (rev (dropWhile is_space s)))"

text \<open>
  A Python dict keeps its keys in insertion order: an association list in which \<open>d[k] = v\<close>
  replaces the value of a key that is there and appends a key that is not. \<open>d[k]\<close> raises
  \<open>KeyError\<close> for a missing key; it is only read below for keys that have just been stored.
\<close>

definition dict_has :: "('k \<times> 'v) list \<Rightarrow> 'k \<Rightarrow> bool" where
  "dict_has d k \<longleftrightarrow> k \<in> set (map fst d)"

fun dict_set :: "('k \<times> 'v) list \<Rightarrow> 'k \<Rightarrow> 'v \<Rightarrow> ('k \<times> 'v) list" where
  "dict_set [] k v = [(k, v)]"
| "dict_set ((k', v') # d) k v = (if k' = k then (k, v) # d else (k', v') # dict_set d k v)"

definition dict_item :: "('k \<times> 'v) list \<Rightarrow> 'k \<Rightarrow> 'v" where
  "dict_item d k = the (map_of d k)"

text \<open>The three nested loops that fill \<open>feature_frequency\<close>.\<close>

fun count_items :: "(string \<times> nat) list \<Rightarrow> string list \<Rightarrow> (string \<times> nat) list" where
  "count_items freq [] = freq"
| "count_items freq (item # items) =
     (let item_lower = strip (lower item);
          freq1 = (if \<not> dict_has freq item_lower then dict_set freq item_lower 0 else freq);
          freq2 = dict_set freq1 item_lower (dict_item freq1 item_lower + 1)
      in count_items freq2 items)"

fun count_features ::
  "(string \<times> (string \<times> nat) list) list \<Rightarrow> features \<Rightarrow> (string \<times> (string \<times> nat) list) list" where
  "count_features feature_frequency [] = feature_frequency"
| "count_features feature_frequency ((category, items) # rest) =
     (let ff1 = (if \<not> dict_has feature_frequency category
                 then dict_set feature_frequency category [] else feature_frequency);
          ff2 = dict_set ff1 category (count_items (dict_item ff1 category) items)
      in count_features ff2 rest)"

fun count_posts ::
  "(string \<times> (string \<times> nat) list) list \<Rightarrow> analyzed_post list
     \<Rightarrow> (string \<times> (string \<times> nat) list) list" where
  "count_posts feature_frequency [] = feature_frequency"
| "count_posts feature_frequency (post_data # rest) =
     count_posts (count_features feature_frequency (features post_data)) rest"

text \<open>
  \<open>round(x, 1)\<close>: to the nearest multiple of one tenth, a tie going to the even one. The
  float arithmetic of \<open>count / total_posts\<close>, of the comparison with the threshold and of
  \<open>percentage * 100\<close> is exact arithmetic on real numbers here.
\<close>

definition round_half_even :: "real \<Rightarrow> int" where
  "round_half_even x =
     (let f = \<lfloor>x\<rfloor>; r = x - of_int f in
      if r < 1 / 2 then f else if r > 1 / 2 then f + 1 else if even f then f else f + 1)"

definition py_round1 :: "real \<Rightarrow> real" where
  "py_round1 x = of_int (round_half_even (x * 10)) / 10"

record common_feature =
  feature :: string
  frequency :: nat
  percentage :: real

text \<open>The two loops that build \<open>common_features\<close>, and the sort of each category's list.\<close>

fun common_items :: "nat \<Rightarrow> real \<Rightarrow> (string \<times> nat) list \<Rightarrow> common_feature list" where
  "common_items total_posts threshold [] = []"
| "common_items total_posts threshold ((item, count') # rest) =
     (let percentage = real count' / real total_posts in
      if percentage \<ge> threshold
      then \<lparr>feature = item, frequency = count', percentage = py_round1 (percentage * 100)\<rparr>
             # common_items total_posts threshold rest
      else common_items total_posts threshold rest)"

fun common_categories ::
  "nat \<Rightarrow> real \<Rightarrow> (string \<times> (string \<times> nat) list) list \<Rightarrow> (string \<times> common_feature list) list
     \<Rightarrow> (string \<times> common_feature list) list" where
  "common_categories total_posts threshold [] common_features = common_features"
| "common_categories total_posts threshold ((category, items) # rest) common_features =
     common_categories total_posts threshold rest
       (dict_set common_features category
          (sort_key (\<lambda>x. - int (frequency x)) (common_items total_posts threshold items)))"

definition find_common_features ::
  "analyzed_post list \<Rightarrow> real \<Rightarrow> (string \<times> common_feature list) list" where
  "find_common_features analyzed_posts threshold =
     (if analyzed_posts = [] then []
      else
        (let total_posts = length analyzed_posts;
             feature_frequency = count_posts [] analyzed_posts
         in common_categories total_posts threshold feature_frequency []))"

text \<open>
  Counting by hand: how often the normalized string \<open>f\<close> occurs in the lists of category \<open>c\<close>
  of one feature dict, over all posts, and in how many posts it occurs at all.
\<close>

definition occ_features :: "string \<Rightarrow> string \<Rightarrow> features \<Rightarrow> nat" where
  "occ_features c f fs =
     sum_list (map (\<lambda>(c', items). if c' = c then count_list (map (\<lambda>i. strip (lower i)) items) f else 0) fs)"

definition occurrences :: "string \<Rightarrow> string \<Rightarrow> analyzed_post list \<Rightarrow> nat" where
  "occurrences c f posts = sum_list (map (\<lambda>p. occ_features c f (features p)) posts)"

definition posts_containing :: "string \<Rightarrow> string \<Rightarrow> analyzed_post list \<Rightarrow> nat" where
  "posts_containing c f posts = length (filter (\<lambda>p. occ_features c f (features p) > 0) posts)"

text \<open>Analysed posts for examples.\<close>

definition example_analyzed :: "analyzed_post list" where
  "example_analyzed =
     [\<lparr>post = \<lparr>image_path = ''a.png'', likes = 5\<rparr>,
       features = [(''visual_style'', [''Minimal'', '' bold '']), (''lighting'', [''Soft''])]\<rparr>,
      \<lparr>post = \<lparr>image_path = ''b.png'', likes = 50\<rparr>,
       features = [(''lighting'', [''soft'', ''warm'']), (''visual_style'', [''Bold'', ''BOLD''])]\<rparr>,
      \<lparr>post = \<lparr>image_path = ''c.png'', likes = 20\<rparr>,
       features = [(''visual_style'', [''bold'', ''flat''])]\<rparr>]"

text \<open>
  Reading the frequency dicts: the count stored for a string (zero when it is not a key), for a
  string of a category, and the dicts the loops can produce (distinct keys, positive counts).
\<close>

definition cnt :: "(string \<times> nat) list \<Rightarrow> string \<Rightarrow> nat" where
  "cnt d f = (case map_of d f of None \<Rightarrow> 0 | Some n \<Rightarrow> n)"

definition counted :: "(string \<times> nat) list \<Rightarrow> bool" where
  "counted d \<longleftrightarrow> distinct (map fst d) \<and> (\<forall>k n. map_of d k = Some n \<longrightarrow> 0 < n)"

definition cntc :: "(string \<times> (string \<times> nat) list) list \<Rightarrow> string \<Rightarrow> string \<Rightarrow> nat" where
  "cntc ff c f = (case map_of ff c of None \<Rightarrow> 0 | Some d \<Rightarrow> cnt d f)"

definition countedc :: "(string \<times> (string \<times> nat) list) list \<Rightarrow> bool" where
  "countedc ff \<longleftrightarrow> distinct (map fst ff) \<and> (\<forall>c d. map_of ff c = Some d \<longrightarrow> counted d)"

text \<open>The list entry the second pair of loops makes of a counted string.\<close>

definition common_entry :: "nat \<Rightarrow> string \<times> nat \<Rightarrow> common_feature" where
  "common_entry total_posts kn =
     \<lparr>feature = fst kn, frequency = snd kn,
      percentage = py_round1 (real (snd kn) / real total_posts * 100)\<rparr>"

section \<open>Reading the newest uploaded file\<close>

text \<open>
  \<open>analyze_past_posts\<close> up to the choice of the CSV file: the folder \<open>uploads/brand_images\<close>
  is absent or has the files listed. Both exceptions are \<open>HTTPException\<close>s, which this
  endpoint re-raises as they are (\<open>except HTTPException: raise\<close>).
\<close>

definition analyze_past_posts_csv :: "file_entry list option \<Rightarrow> exn + file_entry" where
  "analyze_past_posts_csv brand_images_dir =
     (case brand_images_dir of
        None \<Rightarrow> Inl (HTTPException 404 ''Brand images folder not found'')
      | Some dir \<Rightarrow>
          (case glob dir ''*.csv'' of
             [] \<Rightarrow> Inl (HTTPException 404
                         (''No CSV file found in uploads/brand_images. Please upload a CSV with ''
                          @ [CHR 0x27] @ ''image'' @ [CHR 0x27] @ '' and ''
                          @ [CHR 0x27] @ ''likes'' @ [CHR 0x27] @ '' columns.''))
           | f # fs \<Rightarrow> Inr (max_mtime_from f fs)))"

text \<open>
  \<open>generate_design_from_text\<close> up to the choice of the brand guidelines PDF: whether
  \<open>uploads/analyze.json\<close> exists, what loading it does, and the files of the uploads folder.
  Here too an \<open>HTTPException\<close> is re-raised as it is.
\<close>

definition generate_design_brand_pdf ::
  "bool \<Rightarrow> unit outcome \<Rightarrow> file_entry list \<Rightarrow> exn + file_entry" where
  "generate_design_brand_pdf analysis_file_exists load_analysis_json uploads_dir =
     (if \<not> analysis_file_exists then
        Inl (HTTPException 404
              (''analyze.json not found. Please run '' @ [CHR 0x27]
               @ ''Analyze past posts by AI'' @ [CHR 0x27] @ '' first.''))
      else
        (case load_analysis_json of
           Raises msg \<Rightarrow> Inl (HTTPException 400 (''Invalid JSON file: '' @ msg))
         | Returns _ \<Rightarrow>
             (case glob uploads_dir ''brand_guidelines_*.pdf'' of
                [] \<Rightarrow> Inl (HTTPException 404
                  ''No brand guidelines PDF found. Please upload brand guidelines first.'')
              | f # fs \<Rightarrow> Inr (max_mtime_from f fs))))"

text \<open>Folders for examples.\<close>

definition example_uploads :: "file_entry list" where
  "example_uploads =
     [\<lparr>name = ''brand_guidelines_20240101.pdf'', st_mtime = 100\<rparr>,
      \<lparr>name = ''analyze.json'', st_mtime = 900\<rparr>,
      \<lparr>name = ''brand_guidelines_20240301.pdf'', st_mtime = 300\<rparr>,
      \<lparr>name = ''brand_guidelines_notes.txt'', st_mtime = 500\<rparr>,
      \<lparr>name = ''brand_guidelines_20240201.pdf'', st_mtime = 300\<rparr>]"

definition example_brand_images :: "file_entry list" where
  "example_brand_images =
     [\<lparr>name = ''posts_old.csv'', st_mtime = 10\<rparr>,
      \<lparr>name = ''photo.png'', st_mtime = 70\<rparr>,
      \<lparr>name = ''posts_new.csv'', st_mtime = 40\<rparr>]"

section \<open>main.py: posting to LinkedIn\<close>

subsection \<open>\<open>config.json\<close>\<close>

text \<open>
  JSON values as \<open>json.load\<close> returns them; an object keeps one value per key. The config file
  is absent, does not parse (\<open>json.load\<close> raises), or parses to a value.
\<close>

datatype json =
  JNull | JBool bool | JNumber real | JString string | JArray "json list"
| JObject "(string \<times> json) list"

text \<open>Python truthiness: \<open>None\<close>, \<open>False\<close>, zero and the empty string, list and dict are falsy.\<close>

fun json_truthy :: "json \<Rightarrow> bool" where
  "json_truthy JNull = False"
| "json_truthy (JBool b) = b"
| "json_truthy (JNumber x) = (x \<noteq> 0)"
| "json_truthy (JString s) = (s \<noteq> [])"
| "json_truthy (JArray xs) = (xs \<noteq> [])"
| "json_truthy (JObject kvs) = (kvs \<noteq> [])"

datatype config_file = Absent | Malformed string | Parsed json

text \<open>
  \<open>load_config\<close> returns \<open>{}\<close> when the file does not exist; \<open>get_access_token\<close> is
  \<open>config.get("access_token")\<close>, which is \<open>None\<close> for a missing key and raises
  \<open>AttributeError\<close> when the file holds something else than an object.
\<close>

definition load_config :: "config_file \<Rightarrow> exn + json" where
  "load_config f =
     (case f of
        Absent \<Rightarrow> Inr (JObject [])
      | Malformed msg \<Rightarrow> Inl (Exception msg)
      | Parsed j \<Rightarrow> Inr j)"

definition get_access_token :: "config_file \<Rightarrow> exn + json" where
  "get_access_token f =
     (case load_config f of
        Inl e \<Rightarrow> Inl e
      | Inr (JObject config) \<Rightarrow>
          (case map_of config ''access_token'' of None \<Rightarrow> Inr JNull | Some v \<Rightarrow> Inr v)
      | Inr _ \<Rightarrow> Inl (Exception ''object has no attribute get''))"

subsection \<open>The \<open>/post\<close> endpoint\<close>

text \<open>
  What a request to LinkedIn does: it answers with the value read from it, it answers with an
  error status (\<open>raise_for_status\<close> raises \<open>requests.exceptions.HTTPError\<close>), or something
  else goes wrong (no connection, an answer of another shape). The four requests depend on the
  access token. The effects of the endpoint are the requests it sends and the files it writes
  and removes; \<open>temp_path\<close> is the name of the temporary file.
\<close>

datatype 'a api_result = Ok 'a | HttpError nat string | Fails string

record linkedin =
  userinfo :: "json \<Rightarrow> json api_result"
  register_upload :: "json \<Rightarrow> json \<Rightarrow> (string \<times> string) api_result"
  upload_image :: "json \<Rightarrow> string \<Rightarrow> string \<Rightarrow> unit api_result"
  create_post :: "json \<Rightarrow> json \<Rightarrow> string \<Rightarrow> string \<Rightarrow> json api_result"
  temp_path :: string

datatype effect = ApiCall string | FileWrite string string | FileRemove string

datatype post_error = RequestsHTTPError nat string | Raised exn

datatype post_response = Posted json

text \<open>\<open>dict.get(key, default)\<close> on a JSON value that should be an object.\<close>

definition json_get :: "json \<Rightarrow> string \<Rightarrow> json \<Rightarrow> exn + json" where
  "json_get j key dflt =
     (case j of
        JObject kvs \<Rightarrow> (case map_of kvs key of None \<Rightarrow> Inr dflt | Some v \<Rightarrow> Inr v)
      | _ \<Rightarrow> Inl (Exception ''object has no attribute get''))"

definition of_api :: "'a api_result \<Rightarrow> post_error + 'a" where
  "of_api r =
     (case r of
        Ok v \<Rightarrow> Inr v
      | HttpError code body \<Rightarrow> Inl (RequestsHTTPError code body)
      | Fails msg \<Rightarrow> Inl (Raised (Exception msg)))"

text \<open>Steps 3 to 5, inside the inner \<open>try\<close> whose \<open>finally\<close> removes the temporary file.\<close>

definition post_linkedin_upload ::
  "linkedin \<Rightarrow> json \<Rightarrow> json \<Rightarrow> string \<Rightarrow> (post_error + post_response) \<times> effect list" where
  "post_linkedin_upload li access_token user_id text =
     (case of_api (register_upload li access_token user_id) of
        Inl e \<Rightarrow> (Inl e, [ApiCall ''https://api.linkedin.com/v2/assets?action=registerUpload''])
      | Inr (upload_url, asset_urn) \<Rightarrow>
          (case of_api (upload_image li access_token upload_url (temp_path li)) of
             Inl e \<Rightarrow>
               (Inl e, [ApiCall ''https://api.linkedin.com/v2/assets?action=registerUpload'',
                        ApiCall upload_url])
           | Inr _ \<Rightarrow>
               (case of_api (create_post li access_token user_id text asset_urn) of
                  Inl e \<Rightarrow>
                    (Inl e, [ApiCall ''https://api.linkedin.com/v2/assets?action=registerUpload'',
                             ApiCall upload_url, ApiCall ''https://api.linkedin.com/v2/ugcPosts''])
                | Inr result \<Rightarrow>
                    (case json_get result ''id'' (JString ''N/A'') of
                       Inl e \<Rightarrow>
                         (Inl (Raised e),
                          [ApiCall ''https://api.linkedin.com/v2/assets?action=registerUpload'',
                           ApiCall upload_url, ApiCall ''https://api.linkedin.com/v2/ugcPosts''])
                     | Inr post_id \<Rightarrow>
                         (Inr (Posted post_id),
                          [ApiCall ''https://api.linkedin.com/v2/assets?action=registerUpload'',
                           ApiCall upload_url,
                           ApiCall ''https://api.linkedin.com/v2/ugcPosts''])))))"

text \<open>The body of the outer \<open>try\<close>: steps 1 and 2, then the upload.\<close>

definition post_linkedin_body ::
  "linkedin \<Rightarrow> json \<Rightarrow> string \<Rightarrow> string \<Rightarrow> (post_error + post_response) \<times> effect list" where
  "post_linkedin_body li access_token text image_content =
     (case of_api (userinfo li access_token) of
        Inl e \<Rightarrow> (Inl e, [ApiCall ''https://api.linkedin.com/v2/userinfo''])
      | Inr user \<Rightarrow>
          (case json_get user ''sub'' JNull of
             Inl e \<Rightarrow> (Inl (Raised e), [ApiCall ''https://api.linkedin.com/v2/userinfo''])
           | Inr user_id \<Rightarrow>
               if \<not> json_truthy user_id then
                 (Inl (Raised (HTTPException 400 ''Failed to get user ID'')),
                  [ApiCall ''https://api.linkedin.com/v2/userinfo''])
               else
                 (case post_linkedin_upload li access_token user_id text of
                    (r, effects) \<Rightarrow>
                      (r, [ApiCall ''https://api.linkedin.com/v2/userinfo'',
                           FileWrite (temp_path li) image_content]
                          @ effects @ [FileRemove (temp_path li)]))))"

text \<open>
  The endpoint. The token is read and checked before the \<open>try\<close>; the handlers after it turn an
  \<open>HTTPError\<close> into an \<open>HTTPException\<close> with the status LinkedIn answered, and any other
  exception into a 500.
\<close>

definition post_linkedin ::
  "config_file \<Rightarrow> linkedin \<Rightarrow> string \<Rightarrow> string \<Rightarrow> (exn + post_response) \<times> effect list" where
  "post_linkedin f li text image_content =
     (case get_access_token f of
        Inl e \<Rightarrow> (Inl e, [])
      | Inr access_token \<Rightarrow>
          if \<not> json_truthy access_token then
            (Inl (HTTPException 401 ''Not authenticated. Please visit /auth/login first''), [])
          else
            (case post_linkedin_body li access_token text image_content of
               (Inr r, effects) \<Rightarrow> (Inr r, effects)
             | (Inl (RequestsHTTPError code body), effects) \<Rightarrow>
                 (Inl (HTTPException code (''LinkedIn API error: '' @ body)), effects)
             | (Inl (Raised e), effects) \<Rightarrow>
                 (Inl (HTTPException 500 (''Error: '' @ str_exn e)), effects)))"

text \<open>A LinkedIn that accepts everything, for examples.\<close>

definition example_linkedin :: linkedin where
  "example_linkedin =
     \<lparr>userinfo = (\<lambda>token. Ok (JObject [(''sub'', JString ''u1'')])),
      register_upload = (\<lambda>token user. Ok (''https://upload.example/1'', ''urn:li:asset:1'')),
      upload_image = (\<lambda>token url path. Ok ()),
      create_post = (\<lambda>token user text asset. Ok (JObject [(''id'', JString ''post-1'')])),
      temp_path = ''/tmp/tmpabc.png''\<rparr>"

section \<open>main.py: generating design code\<close>

subsection \<open>\<open>extract_code_from_response\<close>\<close>

text \<open>
  The two regular expressions have the shape \<open>opener (.*?) fence\<close> with \<open>re.DOTALL\<close>, where
  the fence is three backquotes and the opener is the fence, one of the language tags or
  nothing, and a newline. \<open>split_at_fence\<close> is the lazy group followed by the closing fence: the
  text before the first fence and the text after it. \<open>match_here\<close> tries the alternatives in
  their order at one position, going on to the next alternative when there is no closing fence.
  \<open>findall\<close> is \<open>re.findall\<close>: the groups of the matches found from left to right, each search
  starting where the previous match ended.
\<close>

definition fence :: string where
  "fence = [CHR 0x60, CHR 0x60, CHR 0x60]"

fun split_at_fence :: "string \<Rightarrow> (string \<times> string) option" where
  "split_at_fence [] = None"
| "split_at_fence (c # cs) =
     (if startswith (c # cs) fence then Some ([], drop 3 (c # cs))
      else (case split_at_fence cs of None \<Rightarrow> None | Some (body, rest) \<Rightarrow> Some (c # body, rest)))"

fun match_here :: "string list \<Rightarrow> string \<Rightarrow> (string \<times> string) option" where
  "match_here [] s = None"
| "match_here (opener # openers) s =
     (if startswith s opener then
        (case split_at_fence (drop (length opener) s) of
           Some m \<Rightarrow> Some m
         | None \<Rightarrow> match_here openers s)
      else match_here openers s)"

function findall :: "string list \<Rightarrow> string \<Rightarrow> string list" where
  "findall openers [] = []"
| "findall openers (c # cs) =
     (case match_here openers (c # cs) of
        Some (body, rest) \<Rightarrow> body # findall openers rest
      | None \<Rightarrow> findall openers cs)"
  by pat_completeness auto
termination
proof (relation "measure (\<lambda>(openers, s). length s)")
  show "wf (measure (\<lambda>(openers, s). length s))" by simp
next
  fix openers :: "string list" and c :: char and cs :: string
  show "((openers, cs), (openers, c # cs)) \<in> measure (\<lambda>(openers, s). length s)" by simp
next
  fix openers :: "string list" and c :: char and cs :: string
    and x2 :: "string \<times> string" and body rest :: string
  assume m: "match_here openers (c # cs) = Some x2" and x: "(body, rest) = x2"
  have split: "length r < length s" if "split_at_fence s = Some (b, r)" for s b r
    using that
  proof (induction s arbitrary: b)
    case Nil
    then show ?case by simp
  next
    case (Cons d ds)
    show ?case
    proof (cases "startswith (d # ds) fence")
      case True
      with Cons.prems show ?thesis by auto
    next
      case False
      with Cons.prems obtain b' where "split_at_fence ds = Some (b', r)"
        by (auto split: option.splits)
      from Cons.IH [OF this] show ?thesis by simp
    qed
  qed
  have here: "length r < length s" if "match_here os s = Some (b, r)" for os s b r
    using that
  proof (induction os)
    case Nil
    then show ?case by simp
  next
    case (Cons opener os)
    show ?case
    proof (cases "startswith s opener \<and> split_at_fence (drop (length opener) s) \<noteq> None")
      case True
      with Cons.prems have "split_at_fence (drop (length opener) s) = Some (b, r)"
        by (auto split: option.splits)
      from split [OF this] show ?thesis by simp
    next
      case False
      with Cons.prems have "match_here os s = Some (b, r)" by (auto split: option.splits)
      from Cons.IH [OF this] show ?thesis .
    qed
  qed
  from m x have "match_here openers (c # cs) = Some (body, rest)" by simp
  from here [OF this]
  show "((openers, rest), (openers, c # cs)) \<in> measure (\<lambda>(openers, s). length s)" by simp
qed

definition tagged_openers :: "string list" where
  "tagged_openers =
     map (\<lambda>tag. fence @ tag @ [NL]) [''javascript'', ''js'', ''tsx'', ''jsx'', ''typescript'', ''ts'']"

definition bare_openers :: "string list" where
  "bare_openers = [fence @ [NL]]"

definition extract_code_from_response :: "string option \<Rightarrow> string option" where
  "extract_code_from_response text =
     (case text of
        None \<Rightarrow> None
      | Some t \<Rightarrow>
          if t = [] then None
          else
            (let code_blocks = findall tagged_openers t @ findall bare_openers t in
             if code_blocks \<noteq> [] then Some (join [NL, NL] code_blocks) else None))"

subsection \<open>The \<open>/api/generate-design\<close> endpoint\<close>

text \<open>
  The model answers with a response whose \<open>.text\<close> is a string or \<open>None\<close>, or the request
  raises; writing \<open>src/code.js\<close> succeeds or raises. The body of the \<open>try\<close> block raises its two
  \<open>HTTPException\<close>s inside it, and the only handler is
  \<open>except Exception as e: raise HTTPException(status_code=500, detail=str(e))\<close>.
\<close>

record design_response =
  code :: string
  prompt :: string

definition generate_design_body ::
  "string option outcome \<Rightarrow> unit outcome \<Rightarrow> string \<Rightarrow> (exn + design_response) \<times> effect list" where
  "generate_design_body gemini write_file request_prompt =
     (case gemini of
        Raises msg \<Rightarrow> (Inl (Exception msg), [])
      | Returns response_text \<Rightarrow>
          if response_text = None \<or> response_text = Some [] then
            (Inl (HTTPException 500 ''No response from AI''), [])
          else
            (case extract_code_from_response response_text of
               None \<Rightarrow> (Inl (HTTPException 500 ''No code block found in AI response''), [])
             | Some code' \<Rightarrow>
                 if code' = [] then
                   (Inl (HTTPException 500 ''No code block found in AI response''), [])
                 else
                   (case write_file of
                      Raises msg \<Rightarrow> (Inl (Exception msg), [])
                    | Returns _ \<Rightarrow>
                        (Inr \<lparr>code = code', prompt = request_prompt\<rparr>,
                         [FileWrite ''src/code.js'' code']))))"

definition generate_design ::
  "string option outcome \<Rightarrow> unit outcome \<Rightarrow> string \<Rightarrow> (exn + design_response) \<times> effect list" where
  "generate_design gemini write_file request_prompt =
     (case generate_design_body gemini write_file request_prompt of
        (Inl e, effects) \<Rightarrow> (Inl (HTTPException 500 (str_exn e)), effects)
      | (Inr r, effects) \<Rightarrow> (Inr r, effects))"

section \<open>Facts about strings\<close>

lemma startswith_iff: "startswith s p \<longleftrightarrow> (\<exists>b. s = p @ b)"
  by (induction s p rule: startswith.induct) auto

lemma str_in_iff: "str_in p s \<longleftrightarrow> (\<exists>a b. s = a @ p @ b)"
proof (induction s)
  case Nil
  then show ?case by auto
next
  case (Cons c cs)
  show ?case
  proof
    assume "str_in p (c # cs)"
    then consider "startswith (c # cs) p" | "str_in p cs" by auto
    then show "\<exists>a b. c # cs = a @ p @ b"
    proof cases
      case 1
      then obtain b where "c # cs = p @ b" by (auto simp: startswith_iff)
      then have "c # cs = [] @ p @ b" by simp
      then show ?thesis by blast
    next
      case 2
      then obtain a b where "cs = a @ p @ b" using Cons.IH by blast
      then have "c # cs = (c # a) @ p @ b" by simp
      then show ?thesis by blast
    qed
  next
    assume "\<exists>a b. c # cs = a @ p @ b"
    then obtain a b where ab: "c # cs = a @ p @ b" by blast
    show "str_in p (c # cs)"
    proof (cases a)
      case Nil
      with ab have "startswith (c # cs) p" by (simp add: startswith_iff)
      then show ?thesis by simp
    next
      case (Cons x xs)
      with ab have "cs = xs @ p @ b" by simp
      then show ?thesis using Cons.IH by auto
    qed
  qed
qed

section \<open>The compliance status of a response\<close>

lemma find_status_line_none:
  "\<forall>l\<in>set ls. \<not> str_in ''COMPLIANCE STATUS:'' (upper l) \<Longrightarrow> find_status_line ls = []"
  by (induction ls) auto

lemma find_status_line_first:
  "\<forall>l\<in>set pre. \<not> str_in ''COMPLIANCE STATUS:'' (upper l) \<Longrightarrow>
   str_in ''COMPLIANCE STATUS:'' (upper line) \<Longrightarrow>
   find_status_line (pre @ line # suf) = upper line"
  by (induction pre) auto

lemma first_marker_line:
  "(\<forall>l\<in>set ls. \<not> str_in ''COMPLIANCE STATUS:'' (upper l)) \<or>
   (\<exists>pre line suf. ls = pre @ line # suf
      \<and> (\<forall>l\<in>set pre. \<not> str_in ''COMPLIANCE STATUS:'' (upper l))
      \<and> str_in ''COMPLIANCE STATUS:'' (upper line))"
proof (induction ls)
  case Nil
  then show ?case by simp
next
  case (Cons x xs)
  show ?case
  proof (cases "str_in ''COMPLIANCE STATUS:'' (upper x)")
    case True
    then have "x # xs = [] @ x # xs \<and> (\<forall>l\<in>set []. \<not> str_in ''COMPLIANCE STATUS:'' (upper l))
      \<and> str_in ''COMPLIANCE STATUS:'' (upper x)" by simp
    then show ?thesis by blast
  next
    case False
    from Cons.IH show ?thesis
    proof
      assume "\<forall>l\<in>set xs. \<not> str_in ''COMPLIANCE STATUS:'' (upper l)"
      with False show ?thesis by simp
    next
      assume "\<exists>pre line suf. xs = pre @ line # suf
        \<and> (\<forall>l\<in>set pre. \<not> str_in ''COMPLIANCE STATUS:'' (upper l))
        \<and> str_in ''COMPLIANCE STATUS:'' (upper line)"
      then obtain pre line suf where h: "xs = pre @ line # suf"
        "\<forall>l\<in>set pre. \<not> str_in ''COMPLIANCE STATUS:'' (upper l)"
        "str_in ''COMPLIANCE STATUS:'' (upper line)" by blast
      with False have "x # xs = (x # pre) @ line # suf
        \<and> (\<forall>l\<in>set (x # pre). \<not> str_in ''COMPLIANCE STATUS:'' (upper l))
        \<and> str_in ''COMPLIANCE STATUS:'' (upper line)" by simp
      then show ?thesis by blast
    qed
  qed
qed

lemma parse_response_fields:
  "raw_analysis (parse_response t) = t"
  "status (parse_response t) = find_status_line (split_nl t)"
  "compliant (parse_response t) =
     (str_in ''COMPLIANT'' (find_status_line (split_nl t))
      \<and> \<not> str_in ''NON-COMPLIANT'' (find_status_line (split_nl t)))"
  by (simp_all add: parse_response_def Let_def)

lemma parse_response_compliant_iff:
  "compliant (parse_response t) \<longleftrightarrow>
     (\<exists>pre line suf. split_nl t = pre @ line # suf
        \<and> (\<forall>l\<in>set pre. \<not> str_in ''COMPLIANCE STATUS:'' (upper l))
        \<and> str_in ''COMPLIANCE STATUS:'' (upper line)
        \<and> str_in ''COMPLIANT'' (upper line) \<and> \<not> str_in ''NON-COMPLIANT'' (upper line))"
  (is "?L \<longleftrightarrow> ?R")
proof
  assume L: ?L
  from first_marker_line [of "split_nl t"] show ?R
  proof
    assume "\<forall>l\<in>set (split_nl t). \<not> str_in ''COMPLIANCE STATUS:'' (upper l)"
    then have "find_status_line (split_nl t) = []" by (rule find_status_line_none)
    with L show ?R by (simp add: parse_response_fields)
  next
    assume "\<exists>pre line suf. split_nl t = pre @ line # suf
      \<and> (\<forall>l\<in>set pre. \<not> str_in ''COMPLIANCE STATUS:'' (upper l))
      \<and> str_in ''COMPLIANCE STATUS:'' (upper line)"
    then obtain pre line suf where h: "split_nl t = pre @ line # suf"
      "\<forall>l\<in>set pre. \<not> str_in ''COMPLIANCE STATUS:'' (upper l)"
      "str_in ''COMPLIANCE STATUS:'' (upper line)" by blast
    then have "find_status_line (split_nl t) = upper line"
      by (simp add: find_status_line_first)
    with L have "str_in ''COMPLIANT'' (upper line) \<and> \<not> str_in ''NON-COMPLIANT'' (upper line)"
      by (simp add: parse_response_fields)
    with h show ?R by blast
  qed
next
  assume ?R
  then obtain pre line suf where h: "split_nl t = pre @ line # suf"
      "\<forall>l\<in>set pre. \<not> str_in ''COMPLIANCE STATUS:'' (upper l)"
      "str_in ''COMPLIANCE STATUS:'' (upper line)"
      "str_in ''COMPLIANT'' (upper line)" "\<not> str_in ''NON-COMPLIANT'' (upper line)" by blast
  then have "find_status_line (split_nl t) = upper line"
    by (simp add: find_status_line_first)
  with h show ?L by (simp add: parse_response_fields)
qed

lemma parse_response_status:
  "split_nl t = pre @ line # suf \<Longrightarrow>
   \<forall>l\<in>set pre. \<not> str_in ''COMPLIANCE STATUS:'' (upper l) \<Longrightarrow>
   str_in ''COMPLIANCE STATUS:'' (upper line) \<Longrightarrow>
   status (parse_response t) = upper line"
  by (simp add: parse_response_fields find_status_line_first)

lemma parse_response_no_status_line:
  "\<forall>l\<in>set (split_nl t). \<not> str_in ''COMPLIANCE STATUS:'' (upper l) \<Longrightarrow>
   \<not> compliant (parse_response t) \<and> status (parse_response t) = []"
  by (simp add: parse_response_fields find_status_line_none)

lemma parse_response_non_compliant:
  "str_in ''NON-COMPLIANT'' (status (parse_response t)) \<Longrightarrow> \<not> compliant (parse_response t)"
  by (simp add: parse_response_fields)

lemma parse_response_needs_review:
  "status (parse_response t) = ''COMPLIANCE STATUS: NEEDS REVIEW'' \<Longrightarrow>
   \<not> compliant (parse_response t)"
  by (simp add: parse_response_fields)

lemma compliance_check_failed:
  assumes "image_open w content = Returns ()"
    and "glob (uploads w) ''brand_guidelines*'' = g # gs"
    and "read_guidelines w (name (max_mtime_from g gs)) = Returns bg"
    and "bg \<noteq> []"
    and "generate_content w content bg = Returns (Some t)"
  shows "compliance_check w content =
     Inr (Checked (if compliant (parse_response t) then ''passed'' else ''failed'')
            (compliant (parse_response t)) t (status (parse_response t))
            (name (max_mtime_from g gs)))"
  using assms
  by (simp add: compliance_check_def compliance_check_body_def check_compliance_def
      parse_response_fields Let_def)

text \<open>
  C10. \<open>_parse_response\<close> sets \<open>compliant\<close> to \<open>True\<close> exactly when the first line whose
  upper-cased form contains \<open>COMPLIANCE STATUS:\<close> has, in that upper-cased form, the substring
  \<open>COMPLIANT\<close> and not \<open>NON-COMPLIANT\<close>; that upper-cased line is the \<open>status\<close> of the result.
  With no such line, with a status line containing \<open>NON-COMPLIANT\<close>, and with the status line
  \<open>COMPLIANCE STATUS: NEEDS REVIEW\<close>, \<open>compliant\<close> is \<open>False\<close>; and when the model's answer
  parses to \<open>compliant = False\<close>, the \<open>/compliance-check\<close> endpoint answers with status
  \<open>failed\<close>.
\<close>

theorem parse_response_compliant:
  "(compliant (parse_response t) \<longleftrightarrow>
      (\<exists>pre line suf. split_nl t = pre @ line # suf
         \<and> (\<forall>l\<in>set pre. \<not> str_in ''COMPLIANCE STATUS:'' (upper l))
         \<and> str_in ''COMPLIANCE STATUS:'' (upper line)
         \<and> str_in ''COMPLIANT'' (upper line) \<and> \<not> str_in ''NON-COMPLIANT'' (upper line)))
   \<and> ((\<forall>l\<in>set (split_nl t). \<not> str_in ''COMPLIANCE STATUS:'' (upper l)) \<longrightarrow>
        \<not> compliant (parse_response t))
   \<and> (\<forall>pre line suf. split_nl t = pre @ line # suf
         \<and> (\<forall>l\<in>set pre. \<not> str_in ''COMPLIANCE STATUS:'' (upper l))
         \<and> str_in ''COMPLIANCE STATUS:'' (upper line) \<longrightarrow>
         status (parse_response t) = upper line)
   \<and> (str_in ''NON-COMPLIANT'' (status (parse_response t)) \<longrightarrow> \<not> compliant (parse_response t))
   \<and> (status (parse_response t) = ''COMPLIANCE STATUS: NEEDS REVIEW'' \<longrightarrow>
        \<not> compliant (parse_response t))
   \<and> (image_open w content = Returns ()
        \<and> glob (uploads w) ''brand_guidelines*'' = g # gs
        \<and> read_guidelines w (name (max_mtime_from g gs)) = Returns bg \<and> bg \<noteq> []
        \<and> generate_content w content bg = Returns (Some t)
        \<and> \<not> compliant (parse_response t) \<longrightarrow>
        compliance_check w content =
          Inr (Checked ''failed'' False t (status (parse_response t))
                 (name (max_mtime_from g gs))))"
proof (intro conjI allI impI)
  show "compliant (parse_response t) \<longleftrightarrow>
      (\<exists>pre line suf. split_nl t = pre @ line # suf
         \<and> (\<forall>l\<in>set pre. \<not> str_in ''COMPLIANCE STATUS:'' (upper l))
         \<and> str_in ''COMPLIANCE STATUS:'' (upper line)
         \<and> str_in ''COMPLIANT'' (upper line) \<and> \<not> str_in ''NON-COMPLIANT'' (upper line))"
    by (rule parse_response_compliant_iff)
next
  assume "\<forall>l\<in>set (split_nl t). \<not> str_in ''COMPLIANCE STATUS:'' (upper l)"
  then show "\<not> compliant (parse_response t)"
    by (simp add: parse_response_no_status_line)
next
  fix pre line suf
  assume "split_nl t = pre @ line # suf
         \<and> (\<forall>l\<in>set pre. \<not> str_in ''COMPLIANCE STATUS:'' (upper l))
         \<and> str_in ''COMPLIANCE STATUS:'' (upper line)"
  then show "status (parse_response t) = upper line"
    by (simp add: parse_response_status)
next
  assume "str_in ''NON-COMPLIANT'' (status (parse_response t))"
  then show "\<not> compliant (parse_response t)" by (rule parse_response_non_compliant)
next
  assume "status (parse_response t) = ''COMPLIANCE STATUS: NEEDS REVIEW''"
  then show "\<not> compliant (parse_response t)" by (rule parse_response_needs_review)
next
  assume h: "image_open w content = Returns ()
        \<and> glob (uploads w) ''brand_guidelines*'' = g # gs
        \<and> read_guidelines w (name (max_mtime_from g gs)) = Returns bg \<and> bg \<noteq> []
        \<and> generate_content w content bg = Returns (Some t)
        \<and> \<not> compliant (parse_response t)"
  then have "compliance_check w content =
     Inr (Checked (if compliant (parse_response t) then ''passed'' else ''failed'')
            (compliant (parse_response t)) t (status (parse_response t))
            (name (max_mtime_from g gs)))"
    using compliance_check_failed [of w content g gs bg t] by simp
  with h show "compliance_check w content =
          Inr (Checked ''failed'' False t (status (parse_response t))
                 (name (max_mtime_from g gs)))" by simp
qed


theorem parse_response_compliant_witness:
  "compliant (parse_response (''Report'' @ [NL] @ ''Compliance Status: Compliant''))
   \<and> status (parse_response (''Report'' @ [NL] @ ''Compliance Status: Compliant''))
       = ''COMPLIANCE STATUS: COMPLIANT''
   \<and> \<not> compliant (parse_response ''Looks fine to me'')
   \<and> \<not> compliant (parse_response ''Compliance Status: Non-Compliant'')
   \<and> \<not> compliant (parse_response ''Compliance status: needs review'')
   \<and> compliance_check example_cc_world ''png'' =
       Inr (Checked ''failed'' False ''COMPLIANCE STATUS: NON-COMPLIANT''
              ''COMPLIANCE STATUS: NON-COMPLIANT'' ''brand_guidelines_a.txt'')"
proof -
  let ?t1 = "''Report'' @ [NL] @ ''Compliance Status: Compliant''"
  let ?g = "\<lparr>name = ''brand_guidelines_a.txt'', st_mtime = 1\<rparr>"
  have split1: "split_nl ?t1 = [''Report''] @ ''Compliance Status: Compliant'' # []"
    by code_simp
  have pre1: "\<forall>l\<in>set [''Report'']. \<not> str_in ''COMPLIANCE STATUS:'' (upper l)"
    by code_simp
  have line1: "str_in ''COMPLIANCE STATUS:'' (upper ''Compliance Status: Compliant'')"
    "str_in ''COMPLIANT'' (upper ''Compliance Status: Compliant'')"
    "\<not> str_in ''NON-COMPLIANT'' (upper ''Compliance Status: Compliant'')"
    by code_simp+
  have up1: "upper ''Compliance Status: Compliant'' = ''COMPLIANCE STATUS: COMPLIANT''"
    by code_simp
  note T1 = parse_response_compliant [of ?t1 example_cc_world "''png''" ?g "[]" "''Use blue''"]
  from T1 split1 pre1 line1 have c1: "compliant (parse_response ?t1)" by blast
  from T1 split1 pre1 line1 have "status (parse_response ?t1) = upper ''Compliance Status: Compliant''"
    by blast
  with up1 have c2: "status (parse_response ?t1) = ''COMPLIANCE STATUS: COMPLIANT''" by simp
  have none2: "\<forall>l\<in>set (split_nl ''Looks fine to me''). \<not> str_in ''COMPLIANCE STATUS:'' (upper l)"
    by code_simp
  from parse_response_compliant [of "''Looks fine to me''" example_cc_world "''png''" ?g "[]" "''Use blue''"] none2
  have c3: "\<not> compliant (parse_response ''Looks fine to me'')" by blast
  have non3: "str_in ''NON-COMPLIANT'' (status (parse_response ''Compliance Status: Non-Compliant''))"
    by code_simp
  from parse_response_compliant [of "''Compliance Status: Non-Compliant''" example_cc_world "''png''" ?g "[]" "''Use blue''"] non3
  have c4: "\<not> compliant (parse_response ''Compliance Status: Non-Compliant'')" by blast
  have rev4: "status (parse_response ''Compliance status: needs review'')
                = ''COMPLIANCE STATUS: NEEDS REVIEW''"
    by code_simp
  from parse_response_compliant [of "''Compliance status: needs review''" example_cc_world "''png''" ?g "[]" "''Use blue''"] rev4
  have c5: "\<not> compliant (parse_response ''Compliance status: needs review'')" by blast
  let ?t5 = "''COMPLIANCE STATUS: NON-COMPLIANT''"
  have w1: "image_open example_cc_world ''png'' = Returns ()" by (simp add: example_cc_world_def)
  have w2: "glob (uploads example_cc_world) ''brand_guidelines*'' = ?g # []" by (simp add: example_cc_world_def glob_def)
  have w3: "read_guidelines example_cc_world (name (max_mtime_from ?g [])) = Returns ''Use blue''"
    "''Use blue'' \<noteq> []" "generate_content example_cc_world ''png'' ''Use blue'' = Returns (Some ?t5)"
    by (simp_all add: example_cc_world_def)
  have w4: "\<not> compliant (parse_response ?t5)" by code_simp
  have st5: "status (parse_response ?t5) = ?t5" by code_simp
  from parse_response_compliant [of ?t5 example_cc_world "''png''" ?g "[]" "''Use blue''"] w1 w2 w3 w4
  have "compliance_check example_cc_world ''png'' =
          Inr (Checked ''failed'' False ?t5 (status (parse_response ?t5))
                 (name (max_mtime_from ?g [])))" by blast
  with st5 have c6: "compliance_check example_cc_world ''png'' =
       Inr (Checked ''failed'' False ?t5 ?t5 ''brand_guidelines_a.txt'')" by simp
  from c1 c2 c3 c4 c5 c6 show ?thesis by blast
qed

section \<open>Partition by popularity\<close>

lemma categorize_fields:
  "fst (categorize_posts_by_popularity posts p) =
     take (nat (max 1 (py_int (real (length posts) * p)))) (sort_key (\<lambda>x. - likes x) posts)"
  "snd (categorize_posts_by_popularity posts p) =
     drop (nat (max 1 (py_int (real (length posts) * p)))) (sort_key (\<lambda>x. - likes x) posts)"
  by (simp_all add: categorize_posts_by_popularity_def Let_def)

lemma sorted_take_drop_le:
  assumes "sorted (map f xs)" "a \<in> set (take k xs)" "b \<in> set (drop k xs)"
  shows "f a \<le> f b"
proof -
  have "sorted (map f (take k xs) @ map f (drop k xs))"
    using assms(1) by (simp flip: map_append)
  then show ?thesis using assms(2,3) by (auto simp: sorted_append)
qed



section \<open>The rate limiter and the retry loop\<close>

declare retry_loop.simps [simp del]

lemma visible_append: "visible (xs @ ys) = visible xs @ visible ys"
  by (simp add: visible_def)

lemma request_paths_append: "request_paths (xs @ ys) = request_paths xs @ request_paths ys"
  by (induction xs rule: request_paths.induct) auto

lemma sleep_nonneg:
  "0 \<le> d \<Longrightarrow> sleep origin d w = Inr (w\<lparr>clock := clock w + d, events := events w @ [origin d]\<rparr>)"
  by (simp add: sleep_def)

lemma wait_min_delay_ok:
  "\<exists>w' ts. wait_min_delay rl w = (Inr (), w') \<and> requests w' = requests w
     \<and> clock w \<le> clock w'
     \<and> events w' = events w @ ts \<and> visible ts = [] \<and> request_paths ts = []"
proof (cases "last_request_time rl")
  case None
  then show ?thesis by (simp add: wait_min_delay_def visible_def)
next
  case (Some t)
  show ?thesis
  proof (cases "clock w - t < min_delay rl")
    case True
    then have "0 \<le> min_delay rl - (clock w - t)" by simp
    then have "wait_min_delay rl w =
        (Inr (), w\<lparr>clock := clock w + (min_delay rl - (clock w - t)),
                    events := events w @ [Throttle (min_delay rl - (clock w - t))]\<rparr>)"
      using Some True by (simp add: wait_min_delay_def Let_def sleep_nonneg)
    moreover have "visible [Throttle (min_delay rl - (clock w - t))] = []"
      "request_paths [Throttle (min_delay rl - (clock w - t))] = []"
      by (simp_all add: visible_def)
    ultimately show ?thesis using True by auto
  next
    case False
    then show ?thesis using Some by (simp add: wait_min_delay_def Let_def visible_def)
  qed
qed

lemma wait_window_ok:
  assumes "1 \<le> max_requests rl"
  shows "\<exists>rl' w' ts. wait_window rl w = (Inr (), rl', w')
     \<and> max_requests rl' = max_requests rl \<and> min_delay rl' = min_delay rl
     \<and> requests w' = requests w \<and> clock w \<le> clock w'
     \<and> events w' = events w @ ts \<and> visible ts = [] \<and> request_paths ts = []"
proof -
  let ?times = "filter (\<lambda>t. clock w - t < 60) (request_times rl)"
  show ?thesis
  proof (cases "int (length ?times) \<ge> max_requests rl")
    case False
    then show ?thesis by (simp add: wait_window_def Let_def visible_def)
  next
    case True
    with assms have "?times \<noteq> []" by auto
    then obtain oldest rest where ts: "?times = oldest # rest" by (cases ?times) auto
    show ?thesis
    proof (cases "61 - (clock w - oldest) > 0")
      case False
      then show ?thesis using True ts by (simp add: wait_window_def Let_def visible_def)
    next
      case pos: True
      then have "0 \<le> 61 - (clock w - oldest)" by simp
      then have "wait_window rl w =
        (Inr (), rl\<lparr>request_times := []\<rparr>,
         w\<lparr>clock := clock w + (61 - (clock w - oldest)),
           events := events w @ [Throttle (61 - (clock w - oldest))]\<rparr>)"
        using True ts pos by (simp add: wait_window_def Let_def sleep_nonneg)
      moreover have "visible [Throttle (61 - (clock w - oldest))] = []"
        "request_paths [Throttle (61 - (clock w - oldest))] = []"
        by (simp_all add: visible_def)
      ultimately show ?thesis using pos by auto
    qed
  qed
qed

lemma wait_if_needed_ok:
  assumes "1 \<le> max_requests rl"
  shows "\<exists>rl' w' ts. wait_if_needed rl w = (Inr (), rl', w')
     \<and> max_requests rl' = max_requests rl \<and> min_delay rl' = min_delay rl
     \<and> requests w' = requests w \<and> clock w \<le> clock w'
     \<and> events w' = events w @ ts \<and> visible ts = [] \<and> request_paths ts = []"
proof -
  obtain w1 ts1 where 1: "wait_min_delay rl w = (Inr (), w1)" "requests w1 = requests w"
    "clock w \<le> clock w1"
    "events w1 = events w @ ts1" "visible ts1 = []" "request_paths ts1 = []"
    using wait_min_delay_ok [of rl w] by blast
  obtain rl2 w2 ts2 where 2: "wait_window rl w1 = (Inr (), rl2, w2)"
    "max_requests rl2 = max_requests rl" "min_delay rl2 = min_delay rl"
    "requests w2 = requests w1" "clock w1 \<le> clock w2"
    "events w2 = events w1 @ ts2" "visible ts2 = []" "request_paths ts2 = []"
    using wait_window_ok [OF assms, of w1] by blast
  let ?rl = "rl2\<lparr>request_times := request_times rl2 @ [clock w2],
                   last_request_time := Some (clock w2)\<rparr>"
  have "wait_if_needed rl w = (Inr (), ?rl, w2)"
    using 1(1) 2(1) by (simp add: wait_if_needed_def)
  moreover have "events w2 = events w @ (ts1 @ ts2)" using 1 2 by simp
  moreover have "visible (ts1 @ ts2) = []" "request_paths (ts1 @ ts2) = []"
    using 1 2 by (simp_all add: visible_append request_paths_append)
  moreover have "max_requests ?rl = max_requests rl" "min_delay ?rl = min_delay rl"
    "requests w2 = requests w" "clock w \<le> clock w2"
    using 1 2 by simp_all
  ultimately have "wait_if_needed rl w = (Inr (), ?rl, w2)
     \<and> max_requests ?rl = max_requests rl \<and> min_delay ?rl = min_delay rl
     \<and> requests w2 = requests w \<and> clock w \<le> clock w2
     \<and> events w2 = events w @ (ts1 @ ts2) \<and> visible (ts1 @ ts2) = []
     \<and> request_paths (ts1 @ ts2) = []" by simp
  then show ?thesis by blast
qed


lemma retry_loop_done:
  "\<not> attempt < n \<Longrightarrow> retry_loop n b path sv attempt (rl, w) = (Inr None, rl, w)"
  by (simp add: retry_loop.simps)

lemma retry_loop_step:
  assumes "1 \<le> max_requests rl" "attempt < n"
  shows "\<exists>rl1 w1 new. max_requests rl1 = max_requests rl \<and> requests w1 = requests w + 1
     \<and> events w1 = events w @ new \<and> visible new = [Request path (requests w)]
     \<and> request_paths new = [path]
     \<and> retry_loop n b path sv attempt (rl, w) =
         (case func sv path (requests w) of
            Returns result \<Rightarrow> (Inr result, rl1, w1)
          | Raises e \<Rightarrow>
              if is_rate_limit e then
                if attempt < n - 1 then
                  (case sleep Backoff (real_of_int (b * 3 ^ nat attempt)) w1 of
                     Inl err \<Rightarrow> (Inl err, rl1, w1)
                   | Inr w2 \<Rightarrow> retry_loop n b path sv (attempt + 1) (rl1, w2))
                else (Inr None, rl1, w1)
              else (Inr None, rl1, w1))"
proof -
  obtain rl1 w0 ts where 1: "wait_if_needed rl w = (Inr (), rl1, w0)"
    "max_requests rl1 = max_requests rl" "requests w0 = requests w"
    "events w0 = events w @ ts" "visible ts = []" "request_paths ts = []"
    using wait_if_needed_ok [OF assms(1), of w] by blast
  let ?w1 = "w0\<lparr>clock := clock w0 + took sv (requests w0),
                 events := events w0 @ [Request path (requests w0)],
                 requests := Suc (requests w0)\<rparr>"
  let ?new = "ts @ [Request path (requests w)]"
  have call: "call_func path sv w0 = (func sv path (requests w), ?w1)"
    using 1(3) by (simp add: call_func_def)
  have a: "requests ?w1 = requests w + 1" using 1 by simp
  have b: "events ?w1 = events w @ ?new" using 1 by simp
  have c: "visible ?new = [Request path (requests w)]"
    using 1 by (simp add: visible_append) (simp add: visible_def)
  have d: "request_paths ?new = [path]" using 1 by (simp add: request_paths_append)
  have e: "retry_loop n b path sv attempt (rl, w) =
         (case func sv path (requests w) of
            Returns result \<Rightarrow> (Inr result, rl1, ?w1)
          | Raises e \<Rightarrow>
              if is_rate_limit e then
                if attempt < n - 1 then
                  (case sleep Backoff (real_of_int (b * 3 ^ nat attempt)) ?w1 of
                     Inl err \<Rightarrow> (Inl err, rl1, ?w1)
                   | Inr w2 \<Rightarrow> retry_loop n b path sv (attempt + 1) (rl1, w2))
                else (Inr None, rl1, ?w1)
              else (Inr None, rl1, ?w1))"
    using assms(2) 1(1) call
    by (subst retry_loop.simps) (simp add: Let_def split: outcome.splits)
  from 1(2) a b c d e show ?thesis by blast
qed

lemma backoff_trace_0: "backoff_trace path b c a 0 = []"
  by (simp add: backoff_trace_def)

lemma backoff_trace_Suc:
  "backoff_trace path b c a (Suc j) =
     [Request path c, Backoff (real_of_int (b * 3 ^ a))] @ backoff_trace path b (Suc c) (Suc a) j"
proof -
  have "[0..<Suc j] = 0 # map Suc [0..<j]"
    by (simp add: upt_conv_Cons map_Suc_upt del: upt_Suc)
  then show ?thesis by (simp add: backoff_trace_def comp_def)
qed

text \<open>After \<open>j\<close> rate-limited attempts, none of them the last, the loop is at attempt \<open>attempt + j\<close>.\<close>

lemma retry_loop_rate_limited:
  assumes "1 \<le> max_requests rl" "0 \<le> b" "0 \<le> attempt" "attempt + int j < n"
    and "\<forall>k<j. \<exists>e. func sv path (requests w + k) = Raises e \<and> is_rate_limit e"
  shows "\<exists>rl' w' new. retry_loop n b path sv attempt (rl, w)
                        = retry_loop n b path sv (attempt + int j) (rl', w')
     \<and> max_requests rl' = max_requests rl \<and> requests w' = requests w + j
     \<and> events w' = events w @ new
     \<and> visible new = backoff_trace path b (requests w) (nat attempt) j"
  using assms
proof (induction j arbitrary: attempt rl w)
  case 0
  have "retry_loop n b path sv attempt (rl, w) = retry_loop n b path sv (attempt + int 0) (rl, w)
     \<and> max_requests rl = max_requests rl \<and> requests w = requests w + 0
     \<and> events w = events w @ []
     \<and> visible [] = backoff_trace path b (requests w) (nat attempt) 0"
    by (simp add: backoff_trace_0 visible_def)
  then show ?case by blast
next
  case (Suc j)
  from Suc.prems(5) obtain e where e: "func sv path (requests w) = Raises e" "is_rate_limit e"
    by force
  from Suc.prems have lt: "attempt < n" "attempt < n - 1" by simp_all
  obtain rl1 w1 new1 where 1: "max_requests rl1 = max_requests rl" "requests w1 = requests w + 1"
    "events w1 = events w @ new1" "visible new1 = [Request path (requests w)]"
    "retry_loop n b path sv attempt (rl, w) =
       (case sleep Backoff (real_of_int (b * 3 ^ nat attempt)) w1 of
          Inl err \<Rightarrow> (Inl err, rl1, w1)
        | Inr w2 \<Rightarrow> retry_loop n b path sv (attempt + 1) (rl1, w2))"
    using retry_loop_step [OF Suc.prems(1) lt(1), where path = path and b = b and sv = sv and w = w]
      e lt(2) by auto
  let ?d = "real_of_int (b * 3 ^ nat attempt)"
  let ?w2 = "w1\<lparr>clock := clock w1 + ?d, events := events w1 @ [Backoff ?d]\<rparr>"
  have "0 \<le> ?d" using Suc.prems(2) by simp
  then have sl: "sleep Backoff ?d w1 = Inr ?w2" by (rule sleep_nonneg)
  have step: "retry_loop n b path sv attempt (rl, w) = retry_loop n b path sv (attempt + 1) (rl1, ?w2)"
    using 1(5) sl by simp
  have req2: "requests ?w2 = requests w + 1" using 1 by simp
  have "\<forall>k<j. \<exists>e. func sv path (requests ?w2 + k) = Raises e \<and> is_rate_limit e"
  proof (intro allI impI)
    fix k assume "k < j"
    then have "Suc k < Suc j" by simp
    with Suc.prems(5) have "\<exists>e. func sv path (requests w + Suc k) = Raises e \<and> is_rate_limit e"
      by blast
    then show "\<exists>e. func sv path (requests ?w2 + k) = Raises e \<and> is_rate_limit e"
      using req2 by simp
  qed
  moreover have "1 \<le> max_requests rl1" "0 \<le> attempt + 1" "attempt + 1 + int j < n"
    using Suc.prems 1 by simp_all
  ultimately obtain rl' w' new where IH:
    "retry_loop n b path sv (attempt + 1) (rl1, ?w2)
       = retry_loop n b path sv (attempt + 1 + int j) (rl', w')"
    "max_requests rl' = max_requests rl1" "requests w' = requests ?w2 + j"
    "events w' = events ?w2 @ new"
    "visible new = backoff_trace path b (requests ?w2) (nat (attempt + 1)) j"
    using Suc.IH [of rl1 "attempt + 1" ?w2] Suc.prems(2) by blast
  let ?new = "new1 @ [Backoff ?d] @ new"
  have nat_eq: "nat (attempt + 1) = Suc (nat attempt)" using Suc.prems(3) by simp
  have A: "retry_loop n b path sv attempt (rl, w)
            = retry_loop n b path sv (attempt + int (Suc j)) (rl', w')"
  proof -
    have "attempt + 1 + int j = attempt + int (Suc j)" by simp
    with step IH(1) show ?thesis by simp
  qed
  have B: "max_requests rl' = max_requests rl" using IH(2) 1(1) by simp
  have C: "requests w' = requests w + Suc j" using IH(3) req2 by simp
  have D: "events w' = events w @ ?new" using IH(4) 1(3) by simp
  have E: "visible ?new = backoff_trace path b (requests w) (nat attempt) (Suc j)"
    using IH(5) 1(4) req2 nat_eq
    by (simp add: visible_append backoff_trace_Suc) (simp add: visible_def)
  from A B C D E show ?case by blast
qed


text \<open>An attempt that ends the loop: a result, another error, or the last rate-limit error.\<close>

lemma retry_loop_last:
  assumes "1 \<le> max_requests rl" "attempt < n"
    and "func sv path (requests w) = Returns r \<and> res = Inr r
       \<or> (\<exists>e. func sv path (requests w) = Raises e \<and> \<not> is_rate_limit e) \<and> res = Inr None
       \<or> (\<exists>e. func sv path (requests w) = Raises e \<and> is_rate_limit e) \<and> \<not> attempt < n - 1
           \<and> res = Inr None"
  shows "\<exists>rl1 w1 new. retry_loop n b path sv attempt (rl, w) = (res, rl1, w1)
     \<and> max_requests rl1 = max_requests rl \<and> requests w1 = requests w + 1
     \<and> events w1 = events w @ new \<and> visible new = [Request path (requests w)]"
proof -
  obtain rl1 w1 new where 1: "max_requests rl1 = max_requests rl" "requests w1 = requests w + 1"
    "events w1 = events w @ new" "visible new = [Request path (requests w)]"
    "retry_loop n b path sv attempt (rl, w) =
         (case func sv path (requests w) of
            Returns result \<Rightarrow> (Inr result, rl1, w1)
          | Raises e \<Rightarrow>
              if is_rate_limit e then
                if attempt < n - 1 then
                  (case sleep Backoff (real_of_int (b * 3 ^ nat attempt)) w1 of
                     Inl err \<Rightarrow> (Inl err, rl1, w1)
                   | Inr w2 \<Rightarrow> retry_loop n b path sv (attempt + 1) (rl1, w2))
                else (Inr None, rl1, w1)
              else (Inr None, rl1, w1))"
    using retry_loop_step [OF assms(1,2), where path = path and b = b and sv = sv and w = w]
    by blast
  from assms(3) have "retry_loop n b path sv attempt (rl, w) = (res, rl1, w1)"
    unfolding 1(5) by auto
  with 1 show ?thesis by blast
qed

lemma retry_loop_ends:
  assumes "1 \<le> max_requests rl" "0 \<le> b" "int j < n"
    and "\<forall>k<j. \<exists>e. func sv path (requests w + k) = Raises e \<and> is_rate_limit e"
    and "func sv path (requests w + j) = Returns r \<and> res = Inr r
       \<or> (\<exists>e. func sv path (requests w + j) = Raises e \<and> \<not> is_rate_limit e) \<and> res = Inr None
       \<or> (\<exists>e. func sv path (requests w + j) = Raises e \<and> is_rate_limit e) \<and> int j = n - 1
           \<and> res = Inr None"
  shows "\<exists>rl1 w1 new. retry_loop n b path sv 0 (rl, w) = (res, rl1, w1)
     \<and> events w1 = events w @ new
     \<and> visible new = backoff_trace path b (requests w) 0 j @ [Request path (requests w + j)]"
proof -
  obtain rl' w' new where 1:
    "retry_loop n b path sv 0 (rl, w) = retry_loop n b path sv (0 + int j) (rl', w')"
    "max_requests rl' = max_requests rl" "requests w' = requests w + j"
    "events w' = events w @ new"
    "visible new = backoff_trace path b (requests w) (nat 0) j"
    using retry_loop_rate_limited [OF assms(1,2), of 0 j n sv path w] assms(3,4) by auto
  have "func sv path (requests w') = Returns r \<and> res = Inr r
       \<or> (\<exists>e. func sv path (requests w') = Raises e \<and> \<not> is_rate_limit e) \<and> res = Inr None
       \<or> (\<exists>e. func sv path (requests w') = Raises e \<and> is_rate_limit e) \<and> \<not> int j < n - 1
           \<and> res = Inr None"
    using assms(5) 1(3) by auto
  moreover have "1 \<le> max_requests rl'" using 1(2) assms(1) by simp
  ultimately obtain rl1 w1 new1 where 2:
    "retry_loop n b path sv (int j) (rl', w') = (res, rl1, w1)"
    "events w1 = events w' @ new1" "visible new1 = [Request path (requests w')]"
    using retry_loop_last [of rl' "int j" n sv path w' r res b] assms(3) by blast
  have "retry_loop n b path sv 0 (rl, w) = (res, rl1, w1)" using 1(1) 2(1) by simp
  moreover have "events w1 = events w @ (new @ new1)" using 1(4) 2(2) by simp
  moreover have "visible (new @ new1)
      = backoff_trace path b (requests w) 0 j @ [Request path (requests w + j)]"
    using 1(5) 1(3) 2(3) by (simp add: visible_append)
  ultimately show ?thesis by blast
qed

lemma is_rate_limit_marker:
  assumes "m \<in> set rate_limit_markers" "str_in m e"
  shows "is_rate_limit e"
proof -
  from assms(2) obtain a c where "e = a @ m @ c" by (auto simp: str_in_iff)
  then have "lower e = lower a @ lower m @ lower c" by (simp add: lower_def)
  moreover have "lower m = m"
    using assms(1)
    by (auto simp: rate_limit_markers_def lower_def lower_char_def upper_letters_def
        lower_letters_def)
  ultimately have "str_in m (lower e)" by (auto simp: str_in_iff)
  with assms(1) show ?thesis by (auto simp: is_rate_limit_def list_ex_iff)
qed




section \<open>The batch of posts\<close>

lemma retry_loop_total:
  assumes "1 \<le> max_requests rl" "0 \<le> b" "0 \<le> attempt"
  shows "\<exists>r rl' w' new k. retry_loop n b path sv attempt (rl, w) = (Inr r, rl', w')
     \<and> max_requests rl' = max_requests rl \<and> events w' = events w @ new
     \<and> request_paths new = replicate k path
     \<and> int k \<le> max 0 (n - attempt) \<and> (attempt < n \<longrightarrow> 1 \<le> k)"
  using assms
proof (induction "nat (n - attempt)" arbitrary: attempt rl w)
  case 0
  then have "\<not> attempt < n" by simp
  then have "retry_loop n b path sv attempt (rl, w) = (Inr None, rl, w)
     \<and> max_requests rl = max_requests rl \<and> events w = events w @ []
     \<and> request_paths [] = replicate 0 path
     \<and> int 0 \<le> max 0 (n - attempt) \<and> (attempt < n \<longrightarrow> 1 \<le> (0::nat))"
    by (simp add: retry_loop_done)
  then show ?case by blast
next
  case (Suc d)
  then have lt: "attempt < n" by simp
  obtain rl1 w1 new1 where 1: "max_requests rl1 = max_requests rl" "requests w1 = requests w + 1"
    "events w1 = events w @ new1" "request_paths new1 = [path]"
    "retry_loop n b path sv attempt (rl, w) =
         (case func sv path (requests w) of
            Returns result \<Rightarrow> (Inr result, rl1, w1)
          | Raises e \<Rightarrow>
              if is_rate_limit e then
                if attempt < n - 1 then
                  (case sleep Backoff (real_of_int (b * 3 ^ nat attempt)) w1 of
                     Inl err \<Rightarrow> (Inl err, rl1, w1)
                   | Inr w2 \<Rightarrow> retry_loop n b path sv (attempt + 1) (rl1, w2))
                else (Inr None, rl1, w1)
              else (Inr None, rl1, w1))"
    using retry_loop_step [OF Suc.prems(1) lt, where path = path and b = b and sv = sv and w = w]
    by blast
  have one: "request_paths new1 = replicate 1 path" "int 1 \<le> max 0 (n - attempt)"
    using 1(4) lt by simp_all
  show ?case
  proof (cases "\<exists>e. func sv path (requests w) = Raises e \<and> is_rate_limit e \<and> attempt < n - 1")
    case False
    then obtain r where "retry_loop n b path sv attempt (rl, w) = (Inr r, rl1, w1)"
      unfolding 1(5) by (cases "func sv path (requests w)") auto
    with 1 one show ?thesis by blast
  next
    case True
    then obtain e where e: "func sv path (requests w) = Raises e" "is_rate_limit e"
      "attempt < n - 1" by blast
    let ?d = "real_of_int (b * 3 ^ nat attempt)"
    let ?w2 = "w1\<lparr>clock := clock w1 + ?d, events := events w1 @ [Backoff ?d]\<rparr>"
    have "0 \<le> ?d" using Suc.prems(2) by simp
    then have sl: "sleep Backoff ?d w1 = Inr ?w2" by (rule sleep_nonneg)
    have step: "retry_loop n b path sv attempt (rl, w)
                  = retry_loop n b path sv (attempt + 1) (rl1, ?w2)"
      unfolding 1(5) using e sl by simp
    have "d = nat (n - (attempt + 1))" using Suc.hyps(2) by simp
    moreover have "1 \<le> max_requests rl1" "0 \<le> attempt + 1" using 1(1) Suc.prems by simp_all
    ultimately obtain r rl' w' new k where IH:
      "retry_loop n b path sv (attempt + 1) (rl1, ?w2) = (Inr r, rl', w')"
      "max_requests rl' = max_requests rl1" "events w' = events ?w2 @ new"
      "request_paths new = replicate k path" "int k \<le> max 0 (n - (attempt + 1))"
      using Suc.hyps(1) [of "attempt + 1" rl1 ?w2] Suc.prems(2) by blast
    let ?new = "new1 @ [Backoff ?d] @ new"
    have "retry_loop n b path sv attempt (rl, w) = (Inr r, rl', w')" using step IH(1) by simp
    moreover have "max_requests rl' = max_requests rl" using IH(2) 1(1) by simp
    moreover have "events w' = events w @ ?new" using IH(3) 1(3) by simp
    moreover have "request_paths ?new = replicate (Suc k) path"
      using IH(4) 1(4) by (simp add: request_paths_append)
    moreover have "int (Suc k) \<le> max 0 (n - attempt)" "attempt < n \<longrightarrow> 1 \<le> Suc k"
      using IH(5) e(3) by simp_all
    ultimately show ?thesis by blast
  qed
qed

lemma analyze_single_image_total:
  assumes "0 \<le> base_delay self" "1 \<le> max_requests (rate_limiter self)"
  shows "\<exists>r self' w' new k. analyze_single_image self sv path w = (Inr r, self', w')
     \<and> base_delay self' = base_delay self \<and> max_retries self' = max_retries self
     \<and> max_requests (rate_limiter self') = max_requests (rate_limiter self)
     \<and> events w' = events w @ new \<and> request_paths new = replicate k path
     \<and> int k \<le> max 0 (max_retries self) \<and> (1 \<le> max_retries self \<longrightarrow> 1 \<le> k)"
proof -
  obtain r rl' w' new k where 1:
    "retry_loop (max_retries self) (base_delay self) path sv 0 (rate_limiter self, w) = (Inr r, rl', w')"
    "max_requests rl' = max_requests (rate_limiter self)" "events w' = events w @ new"
    "request_paths new = replicate k path"
    "int k \<le> max 0 (max_retries self - 0)" "0 < max_retries self \<longrightarrow> 1 \<le> k"
    using retry_loop_total [OF assms(2,1), of 0 "max_retries self" path sv w] by auto
  let ?self = "self\<lparr>rate_limiter := rl'\<rparr>"
  have "analyze_single_image self sv path w = (Inr r, ?self, w')"
    using 1(1) by (simp add: analyze_single_image_def retry_with_backoff_def)
  moreover have "base_delay ?self = base_delay self" "max_retries ?self = max_retries self"
    "max_requests (rate_limiter ?self) = max_requests (rate_limiter self)"
    using 1(2) by simp_all
  moreover have "int k \<le> max 0 (max_retries self)" "1 \<le> max_retries self \<longrightarrow> 1 \<le> k"
    using 1(5,6) by simp_all
  ultimately show ?thesis using 1(3,4) by blast
qed

lemma analyze_posts_loop_run:
  assumes "0 \<le> base_delay self" "1 \<le> max_requests (rate_limiter self)"
  shows "\<exists>self' w' new ks.
       analyze_posts_loop sv posts results (self, w)
         = (Inr (results @ entries posts (analyses sv posts (self, w))), self', w')
     \<and> length (analyses sv posts (self, w)) = length posts
     \<and> events w' = events w @ new
     \<and> length ks = length posts
     \<and> request_paths new = concat (map2 (\<lambda>p k. replicate k (image_path p)) posts ks)
     \<and> (\<forall>k\<in>set ks. int k \<le> max 0 (max_retries self) \<and> (1 \<le> max_retries self \<longrightarrow> 1 \<le> k))"
  using assms
proof (induction posts arbitrary: results self w)
  case Nil
  have "analyze_posts_loop sv [] results (self, w)
         = (Inr (results @ entries [] (analyses sv [] (self, w))), self, w)
     \<and> length (analyses sv [] (self, w)) = length ([] :: PostData list)
     \<and> events w = events w @ []
     \<and> length ([] :: nat list) = length ([] :: PostData list)
     \<and> request_paths [] = concat (map2 (\<lambda>p k. replicate k (image_path p)) [] ([] :: nat list))
     \<and> (\<forall>k\<in>set ([] :: nat list). int k \<le> max 0 (max_retries self)
           \<and> (1 \<le> max_retries self \<longrightarrow> 1 \<le> k))"
    by simp
  then show ?case by blast
next
  case (Cons p rest)
  obtain r self1 w1 new1 k where 1:
    "analyze_single_image self sv (image_path p) w = (Inr r, self1, w1)"
    "base_delay self1 = base_delay self" "max_retries self1 = max_retries self"
    "max_requests (rate_limiter self1) = max_requests (rate_limiter self)"
    "events w1 = events w @ new1" "request_paths new1 = replicate k (image_path p)"
    "int k \<le> max 0 (max_retries self)" "1 \<le> max_retries self \<longrightarrow> 1 \<le> k"
    using analyze_single_image_total [OF Cons.prems, of sv "image_path p" w] by blast
  let ?res = "if truthy r then results @ [\<lparr>post = p, features = the r\<rparr>] else results"
  have inv: "0 \<le> base_delay self1" "1 \<le> max_requests (rate_limiter self1)"
    using 1 Cons.prems by simp_all
  obtain self' w' new ks where IH:
    "analyze_posts_loop sv rest ?res (self1, w1)
       = (Inr (?res @ entries rest (analyses sv rest (self1, w1))), self', w')"
    "length (analyses sv rest (self1, w1)) = length rest"
    "events w' = events w1 @ new" "length ks = length rest"
    "request_paths new = concat (map2 (\<lambda>p k. replicate k (image_path p)) rest ks)"
    "\<forall>k\<in>set ks. int k \<le> max 0 (max_retries self1) \<and> (1 \<le> max_retries self1 \<longrightarrow> 1 \<le> k)"
    using Cons.IH [OF inv, of ?res w1] by blast
  have an: "analyses sv (p # rest) (self, w) = Inr r # analyses sv rest (self1, w1)"
    using 1(1) by simp
  have ent: "results @ entries (p # rest) (analyses sv (p # rest) (self, w))
       = ?res @ entries rest (analyses sv rest (self1, w1))"
    unfolding an by (cases r) auto
  have A: "analyze_posts_loop sv (p # rest) results (self, w)
       = (Inr (results @ entries (p # rest) (analyses sv (p # rest) (self, w))), self', w')"
    unfolding ent using 1(1) IH(1) by (cases "truthy r") simp_all
  have B: "length (analyses sv (p # rest) (self, w)) = length (p # rest)"
    unfolding an using IH(2) by simp
  have C: "events w' = events w @ (new1 @ new)" using 1(5) IH(3) by simp
  have D: "length (k # ks) = length (p # rest)" using IH(4) by simp
  have E: "request_paths (new1 @ new)
       = concat (map2 (\<lambda>p k. replicate k (image_path p)) (p # rest) (k # ks))"
    using 1(6) IH(5) by (simp add: request_paths_append)
  have F: "\<forall>k\<in>set (k # ks). int k \<le> max 0 (max_retries self)
      \<and> (1 \<le> max_retries self \<longrightarrow> 1 \<le> k)"
    using 1(3,7,8) IH(6) by simp
  from A B C D E F show ?case by blast
qed




section \<open>Sequences of rate-limited calls\<close>

text \<open>One call that returns.\<close>

lemma wait_min_delay_clock:
  assumes "wait_min_delay rl w = (r, w1)"
  shows "r = Inr () \<and> clock w \<le> clock w1
     \<and> (\<forall>L. last_request_time rl = Some L \<longrightarrow> L + min_delay rl \<le> clock w1)"
proof (cases "last_request_time rl")
  case None
  with assms show ?thesis by (simp add: wait_min_delay_def)
next
  case (Some t)
  show ?thesis
  proof (cases "clock w - t < min_delay rl")
    case True
    then have "0 \<le> min_delay rl - (clock w - t)" by simp
    then have "wait_min_delay rl w =
        (Inr (), w\<lparr>clock := clock w + (min_delay rl - (clock w - t)),
                    events := events w @ [Throttle (min_delay rl - (clock w - t))]\<rparr>)"
      using Some True by (simp add: wait_min_delay_def Let_def sleep_nonneg)
    with assms Some True show ?thesis by auto
  next
    case False
    with assms Some show ?thesis by (auto simp: wait_min_delay_def Let_def)
  qed
qed

lemma wait_window_returns:
  assumes "wait_window rl w = (Inr u, rl', w')"
    and "request_times rl \<noteq> [] \<longrightarrow> 1 \<le> max_requests rl"
  shows "clock w \<le> clock w' \<and> max_requests rl' = max_requests rl \<and> min_delay rl' = min_delay rl
     \<and> last_request_time rl' = last_request_time rl
     \<and> int (length (request_times rl')) + 1 \<le> max_requests rl
     \<and> (\<forall>t\<in>set (request_times rl'). clock w' - t < 60)"
proof -
  let ?times = "filter (\<lambda>t. clock w - t < 60) (request_times rl)"
  show ?thesis
  proof (cases "int (length ?times) \<ge> max_requests rl")
    case False
    with assms(1) show ?thesis by (auto simp: wait_window_def Let_def)
  next
    case True
    show ?thesis
    proof (cases ?times)
      case Nil
      with True assms(1) show ?thesis by (simp add: wait_window_def Let_def)
    next
      case (Cons oldest rest)
      then have "oldest \<in> set ?times" by simp
      then have "clock w - oldest < 60" by simp
      then have pos: "61 - (clock w - oldest) > 0" by simp
      then have "0 \<le> 61 - (clock w - oldest)" by simp
      then have "wait_window rl w =
        (Inr (), rl\<lparr>request_times := []\<rparr>,
         w\<lparr>clock := clock w + (61 - (clock w - oldest)),
           events := events w @ [Throttle (61 - (clock w - oldest))]\<rparr>)"
        using True Cons pos by (simp add: wait_window_def Let_def sleep_nonneg)
      moreover have "request_times rl \<noteq> []" using Cons by auto
      ultimately show ?thesis using assms pos by auto
    qed
  qed
qed

lemma wait_window_raises:
  assumes "wait_window rl w = (Inl e, rl', w')"
  shows "w' = w \<and> max_requests rl' = max_requests rl \<and> min_delay rl' = min_delay rl
     \<and> last_request_time rl' = last_request_time rl
     \<and> request_times rl' = []"
proof -
  let ?times = "filter (\<lambda>t. clock w - t < 60) (request_times rl)"
  show ?thesis
  proof (cases "int (length ?times) \<ge> max_requests rl")
    case False
    with assms(1) show ?thesis by (auto simp: wait_window_def Let_def)
  next
    case True
    show ?thesis
    proof (cases ?times)
      case Nil
      with True assms(1) show ?thesis by (auto simp: wait_window_def Let_def)
    next
      case (Cons oldest rest)
      then have "oldest \<in> set ?times" by simp
      then have "clock w - oldest < 60" by simp
      then have pos: "61 - (clock w - oldest) > 0" by simp
      then have "0 \<le> 61 - (clock w - oldest)" by simp
      then have "wait_window rl w =
        (Inr (), rl\<lparr>request_times := []\<rparr>,
         w\<lparr>clock := clock w + (61 - (clock w - oldest)),
           events := events w @ [Throttle (61 - (clock w - oldest))]\<rparr>)"
        using True Cons pos by (simp add: wait_window_def Let_def sleep_nonneg)
      with assms show ?thesis by simp
    qed
  qed
qed

lemma wait_if_needed_returns:
  assumes "wait_if_needed rl w = (Inr u, rl', w')"
    and "request_times rl \<noteq> [] \<longrightarrow> 1 \<le> max_requests rl"
  shows "clock w \<le> clock w' \<and> max_requests rl' = max_requests rl \<and> min_delay rl' = min_delay rl
     \<and> last_request_time rl' = Some (clock w')
     \<and> (\<forall>L. last_request_time rl = Some L \<longrightarrow> L + min_delay rl \<le> clock w')
     \<and> int (length (request_times rl')) \<le> max_requests rl
     \<and> (\<forall>t\<in>set (request_times rl'). clock w' - t < 60)"
proof -
  obtain r1 w1 where 1: "wait_min_delay rl w = (r1, w1)" by (cases "wait_min_delay rl w")
  then have m: "r1 = Inr ()" "clock w \<le> clock w1"
    "\<forall>L. last_request_time rl = Some L \<longrightarrow> L + min_delay rl \<le> clock w1"
    using wait_min_delay_clock [OF 1] by simp_all
  obtain r2 rl2 w2 where 2: "wait_window rl w1 = (r2, rl2, w2)" by (cases "wait_window rl w1")
  from assms(1) 1 m(1) 2 have r2: "r2 = Inr ()" and w': "w' = w2"
    and rl': "rl' = rl2\<lparr>request_times := request_times rl2 @ [clock w2],
                         last_request_time := Some (clock w2)\<rparr>"
    by (auto simp: wait_if_needed_def split: sum.splits)
  from 2 r2 have "wait_window rl w1 = (Inr (), rl2, w2)" by simp
  from wait_window_returns [OF this assms(2)]
  have ww: "clock w1 \<le> clock w2" "max_requests rl2 = max_requests rl"
    "min_delay rl2 = min_delay rl"
    "int (length (request_times rl2)) + 1 \<le> max_requests rl"
    "\<forall>t\<in>set (request_times rl2). clock w2 - t < 60" by simp_all
  show ?thesis using m ww by (auto simp: w' rl')
qed

lemma wait_if_needed_raises:
  assumes "wait_if_needed rl w = (Inl e, rl', w')"
  shows "clock w \<le> clock w' \<and> max_requests rl' = max_requests rl \<and> min_delay rl' = min_delay rl
     \<and> last_request_time rl' = last_request_time rl \<and> request_times rl' = []"
proof -
  obtain r1 w1 where 1: "wait_min_delay rl w = (r1, w1)" by (cases "wait_min_delay rl w")
  then have m: "r1 = Inr ()" "clock w \<le> clock w1"
    using wait_min_delay_clock [OF 1] by simp_all
  obtain r2 rl2 w2 where 2: "wait_window rl w1 = (r2, rl2, w2)" by (cases "wait_window rl w1")
  from assms(1) 1 m(1) 2 have "r2 = Inl e" "w' = w2" "rl' = rl2"
    by (auto simp: wait_if_needed_def split: sum.splits)
  with 2 wait_window_raises [of rl w1 e rl2 w2] m show ?thesis by simp
qed


lemma separated_Cons:
  "separated d (x # ys) \<longleftrightarrow> (case ys of [] \<Rightarrow> True | y # zs \<Rightarrow> y - x \<ge> d \<and> separated d ys)"
  by (cases ys) auto

text \<open>
  A run from any state in which a non-empty record means a positive limit: the return instants,
  preceded by the recorded instant of the last request if there is one, are separated, and
  every call that returns leaves at most \<open>max_requests\<close> timestamps, all of the last minute.
\<close>

lemma wait_calls_run:
  assumes "request_times rl \<noteq> [] \<longrightarrow> 1 \<le> max_requests rl"
  shows "separated (min_delay rl)
           ((case last_request_time rl of None \<Rightarrow> [] | Some L \<Rightarrow> [L])
            @ return_times (wait_calls rl w gaps))
     \<and> (\<forall>(r, rl', w') \<in> set (wait_calls rl w gaps). r = Inr () \<longrightarrow>
           int (length (request_times rl')) \<le> max_requests rl
           \<and> (\<forall>t\<in>set (request_times rl'). clock w' - t < 60)
           \<and> last_request_time rl' = Some (clock w'))"
  using assms
proof (induction gaps arbitrary: rl w)
  case Nil
  show ?case by (cases "last_request_time rl") simp_all
next
  case (Cons gap gaps)
  let ?w0 = "w\<lparr>clock := clock w + gap\<rparr>"
  obtain r rl' w' where call: "wait_if_needed rl ?w0 = (r, rl', w')"
    by (cases "wait_if_needed rl ?w0")
  have unfold: "wait_calls rl w (gap # gaps) = (r, rl', w') # wait_calls rl' w' gaps"
    using call by simp
  show ?case
  proof (cases r)
    case (Inl e)
    with call have raises: "wait_if_needed rl ?w0 = (Inl e, rl', w')" by simp
    from wait_if_needed_raises [OF raises]
    have same: "max_requests rl' = max_requests rl" "min_delay rl' = min_delay rl"
      "last_request_time rl' = last_request_time rl" "request_times rl' = []" by simp_all
    then have "request_times rl' \<noteq> [] \<longrightarrow> 1 \<le> max_requests rl'" by simp
    from Cons.IH [OF this, of w'] same Inl show ?thesis
      unfolding unfold by simp
  next
    case (Inr u)
    with call have returns: "wait_if_needed rl ?w0 = (Inr u, rl', w')" by simp
    from wait_if_needed_returns [OF returns Cons.prems]
    have props: "max_requests rl' = max_requests rl" "min_delay rl' = min_delay rl"
      "last_request_time rl' = Some (clock w')"
      "\<forall>L. last_request_time rl = Some L \<longrightarrow> L + min_delay rl \<le> clock w'"
      "int (length (request_times rl')) \<le> max_requests rl"
      "\<forall>t\<in>set (request_times rl'). clock w' - t < 60" by simp_all
    have "request_times rl' \<noteq> [] \<longrightarrow> 1 \<le> max_requests rl'"
    proof
      assume "request_times rl' \<noteq> []"
      then have "1 \<le> int (length (request_times rl'))" by (cases "request_times rl'") simp_all
      with props(1,5) show "1 \<le> max_requests rl'" by simp
    qed
    from Cons.IH [OF this, of w'] props(1,2,3)
    have IH: "separated (min_delay rl) (clock w' # return_times (wait_calls rl' w' gaps))"
      "\<forall>(r, rl'', w'') \<in> set (wait_calls rl' w' gaps). r = Inr () \<longrightarrow>
           int (length (request_times rl'')) \<le> max_requests rl
           \<and> (\<forall>t\<in>set (request_times rl''). clock w'' - t < 60)
           \<and> last_request_time rl'' = Some (clock w'')"
      by simp_all
    have ret: "return_times (wait_calls rl w (gap # gaps))
                 = clock w' # return_times (wait_calls rl' w' gaps)"
      unfolding unfold using Inr by simp
    have A: "separated (min_delay rl)
           ((case last_request_time rl of None \<Rightarrow> [] | Some L \<Rightarrow> [L])
            @ return_times (wait_calls rl w (gap # gaps)))"
    proof (cases "last_request_time rl")
      case None
      then show ?thesis using IH(1) ret by simp
    next
      case (Some L)
      with props(4) have "clock w' - L \<ge> min_delay rl" by simp
      with IH(1) Some ret show ?thesis by simp
    qed
    have B: "\<forall>(r, rl'', w'') \<in> set (wait_calls rl w (gap # gaps)). r = Inr () \<longrightarrow>
           int (length (request_times rl'')) \<le> max_requests rl
           \<and> (\<forall>t\<in>set (request_times rl''). clock w'' - t < 60)
           \<and> last_request_time rl'' = Some (clock w'')"
      unfolding unfold using IH(2) props by simp
    from A B show ?thesis by blast
  qed
qed

lemma wait_calls_all_return:
  assumes "1 \<le> max_requests rl"
  shows "length (return_times (wait_calls rl w gaps)) = length gaps"
  using assms
proof (induction gaps arbitrary: rl w)
  case Nil
  show ?case by simp
next
  case (Cons gap gaps)
  obtain rl' w' where 1: "wait_if_needed rl (w\<lparr>clock := clock w + gap\<rparr>) = (Inr (), rl', w')"
    "max_requests rl' = max_requests rl"
    using wait_if_needed_ok [OF Cons.prems, of "w\<lparr>clock := clock w + gap\<rparr>"] by blast
  then have "1 \<le> max_requests rl'" using Cons.prems by simp
  from Cons.IH [OF this, of w'] 1(1) show ?case by simp
qed




text \<open>
  The bound is on the limiter's own record, which the wait for the window empties. With a limit
  of two requests per minute and no minimum delay, calls at 0, 59 and 59.5 return at 0, 59 and
  61, and a fourth returns at 61 as well, with two timestamps on record.
\<close>

lemma wait_calls_reset_example:
  "map (\<lambda>(r, rl, w). (r, request_times rl, clock w))
     (wait_calls (new_RateLimiter 2 0) start_world [0, 59, 1 / 2, 0])
   = [(Inr (), [0], 0), (Inr (), [0, 59], 59), (Inr (), [61], 61), (Inr (), [61, 61], 61)]"
  by (simp add: new_RateLimiter_def start_world_def wait_if_needed_def
      wait_min_delay_def wait_window_def sleep_def Let_def)

section \<open>Common features\<close>

subsection \<open>Dicts\<close>

lemma map_of_dict_set: "map_of (dict_set d k v) = (map_of d)(k \<mapsto> v)"
  by (induction d) (auto simp: fun_eq_iff)

lemma keys_dict_set:
  "map fst (dict_set d k v) = (if k \<in> fst ` set d then map fst d else map fst d @ [k])"
proof (induction d)
  case Nil
  show ?case by simp
next
  case (Cons a d)
  obtain k' v' where a: "a = (k', v')" by (cases a)
  show ?case
  proof (cases "k' = k")
    case True
    then show ?thesis by (simp add: a)
  next
    case False
    then show ?thesis using Cons.IH by (simp add: a)
  qed
qed

lemma set_keys_dict_set: "fst ` set (dict_set d k v) = insert k (fst ` set d)"
proof -
  have "set (map fst (dict_set d k v)) = insert k (set (map fst d))"
    unfolding keys_dict_set by auto
  then show ?thesis by simp
qed

lemma distinct_dict_set: "distinct (map fst d) \<Longrightarrow> distinct (map fst (dict_set d k v))"
  unfolding keys_dict_set by simp

lemma dict_set_append: "k \<notin> fst ` set d \<Longrightarrow> dict_set d k v = d @ [(k, v)]"
  by (induction d) auto

lemma map_of_None_iff: "map_of d k = None \<longleftrightarrow> k \<notin> fst ` set d"
  by (simp add: map_of_eq_None_iff)


subsection \<open>Counting the items of one list\<close>

lemma count_item_step:
  fixes freq :: "(string \<times> nat) list" and k :: string
  assumes "freq1 = (if \<not> dict_has freq k then dict_set freq k 0 else freq)"
    and "freq2 = dict_set freq1 k (dict_item freq1 k + 1)"
  shows "map_of freq2 = (map_of freq)(k \<mapsto> cnt freq k + 1)"
    and "fst ` set freq2 = insert k (fst ` set freq)"
    and "distinct (map fst freq) \<Longrightarrow> distinct (map fst freq2)"
proof -
  have item: "dict_item freq1 k = cnt freq k"
  proof (cases "dict_has freq k")
    case True
    then obtain n where "map_of freq k = Some n"
      by (cases "map_of freq k") (auto simp: dict_has_def map_of_None_iff)
    with True show ?thesis by (simp add: assms(1) dict_item_def cnt_def)
  next
    case False
    then have "map_of freq k = None" by (simp add: dict_has_def map_of_None_iff)
    with False show ?thesis by (simp add: assms(1) dict_item_def cnt_def map_of_dict_set)
  qed
  show "map_of freq2 = (map_of freq)(k \<mapsto> cnt freq k + 1)"
    unfolding assms(2) item by (simp add: assms(1) map_of_dict_set)
  show "fst ` set freq2 = insert k (fst ` set freq)"
    unfolding assms(2) set_keys_dict_set by (simp add: assms(1) set_keys_dict_set)
  show "distinct (map fst freq) \<Longrightarrow> distinct (map fst freq2)"
    unfolding assms(2) by (simp add: assms(1) distinct_dict_set)
qed

lemma count_items_counted:
  "counted d \<Longrightarrow>
     counted (count_items d items)
     \<and> (\<forall>f. cnt (count_items d items) f = cnt d f + count_list (map (\<lambda>i. strip (lower i)) items) f)
     \<and> fst ` set (count_items d items) = fst ` set d \<union> (\<lambda>i. strip (lower i)) ` set items"
proof (induction items arbitrary: d)
  case Nil
  then show ?case by simp
next
  case (Cons item items)
  define k where "k = strip (lower item)"
  define d1 where "d1 = (if \<not> dict_has d k then dict_set d k 0 else d)"
  define d2 where "d2 = dict_set d1 k (dict_item d1 k + 1)"
  have step: "count_items d (item # items) = count_items d2 items"
    by (simp add: Let_def d2_def d1_def k_def)
  have m: "map_of d2 = (map_of d)(k \<mapsto> cnt d k + 1)"
    and ks: "fst ` set d2 = insert k (fst ` set d)"
    and di: "distinct (map fst d2)"
    using count_item_step [OF d1_def d2_def] Cons.prems by (simp_all add: counted_def)
  have c2: "counted d2"
    unfolding counted_def using di m Cons.prems by (auto simp: counted_def)
  have cnt2: "cnt d2 f = cnt d f + (if k = f then 1 else 0)" for f
    unfolding cnt_def m by simp
  from Cons.IH [OF c2] have IH: "counted (count_items d2 items)"
    "\<And>f. cnt (count_items d2 items) f = cnt d2 f + count_list (map (\<lambda>i. strip (lower i)) items) f"
    "fst ` set (count_items d2 items) = fst ` set d2 \<union> (\<lambda>i. strip (lower i)) ` set items"
    by simp_all
  have A: "counted (count_items d (item # items))" unfolding step by (rule IH(1))
  have B: "\<forall>f. cnt (count_items d (item # items)) f
             = cnt d f + count_list (map (\<lambda>i. strip (lower i)) (item # items)) f"
    unfolding step by (simp add: IH(2) cnt2 k_def)
  have C: "fst ` set (count_items d (item # items))
             = fst ` set d \<union> (\<lambda>i. strip (lower i)) ` set (item # items)"
    unfolding step IH(3) ks by (auto simp: k_def)
  from A B C show ?case by blast
qed

lemma counted_Nil: "counted []"
  by (simp add: counted_def)

lemma cnt_Nil: "cnt [] f = 0"
  by (simp add: cnt_def)

subsection \<open>Counting the categories of one post, and of all posts\<close>

lemma count_features_counted:
  "countedc ff \<Longrightarrow>
     countedc (count_features ff fs)
     \<and> (\<forall>c f. cntc (count_features ff fs) c f = cntc ff c f + occ_features c f fs)
     \<and> fst ` set (count_features ff fs) = fst ` set ff \<union> fst ` set fs"
proof (induction fs arbitrary: ff)
  case Nil
  then show ?case by (simp add: occ_features_def)
next
  case (Cons a fs)
  obtain category items where a: "a = (category, items)" by (cases a)
  define ff1 where "ff1 = (if \<not> dict_has ff category then dict_set ff category [] else ff)"
  define d0 where "d0 = dict_item ff1 category"
  define ff2 where "ff2 = dict_set ff1 category (count_items d0 items)"
  have step: "count_features ff (a # fs) = count_features ff2 fs"
    by (simp add: a Let_def ff2_def d0_def ff1_def)
  have d0: "d0 = (case map_of ff category of None \<Rightarrow> [] | Some d \<Rightarrow> d)"
  proof (cases "dict_has ff category")
    case True
    then obtain d where "map_of ff category = Some d"
      by (cases "map_of ff category") (auto simp: dict_has_def map_of_None_iff)
    with True show ?thesis by (simp add: d0_def ff1_def dict_item_def)
  next
    case False
    then have "map_of ff category = None" by (simp add: dict_has_def map_of_None_iff)
    with False show ?thesis by (simp add: d0_def ff1_def dict_item_def map_of_dict_set)
  qed
  have cd0: "counted d0"
    unfolding d0 using Cons.prems by (auto simp: countedc_def counted_Nil split: option.splits)
  have cnt0: "cnt d0 f = cntc ff category f" for f
    unfolding d0 by (simp add: cntc_def cnt_Nil split: option.splits)
  from count_items_counted [OF cd0, of items]
  have ci: "counted (count_items d0 items)"
    "\<And>f. cnt (count_items d0 items) f = cnt d0 f + count_list (map (\<lambda>i. strip (lower i)) items) f"
    by simp_all
  have m: "map_of ff2 = (map_of ff)(category \<mapsto> count_items d0 items)"
    unfolding ff2_def map_of_dict_set by (simp add: ff1_def map_of_dict_set)
  have ks: "fst ` set ff2 = insert category (fst ` set ff)"
    unfolding ff2_def set_keys_dict_set by (simp add: ff1_def set_keys_dict_set)
  have di: "distinct (map fst ff2)"
    unfolding ff2_def using Cons.prems by (simp add: ff1_def countedc_def distinct_dict_set)
  have c2: "countedc ff2"
    unfolding countedc_def using di m ci(1) Cons.prems by (auto simp: countedc_def)
  have cnt2: "cntc ff2 c f = cntc ff c f
      + (if category = c then count_list (map (\<lambda>i. strip (lower i)) items) f else 0)" for c f
  proof (cases "category = c")
    case True
    then have "cntc ff2 c f = cnt (count_items d0 items) f" by (simp add: cntc_def m)
    with True ci(2) cnt0 show ?thesis by simp
  next
    case False
    then show ?thesis by (simp add: cntc_def m)
  qed
  from Cons.IH [OF c2] have IH: "countedc (count_features ff2 fs)"
    "\<And>c f. cntc (count_features ff2 fs) c f = cntc ff2 c f + occ_features c f fs"
    "fst ` set (count_features ff2 fs) = fst ` set ff2 \<union> fst ` set fs"
    by simp_all
  have A: "countedc (count_features ff (a # fs))" unfolding step by (rule IH(1))
  have B: "\<forall>c f. cntc (count_features ff (a # fs)) c f = cntc ff c f + occ_features c f (a # fs)"
    unfolding step by (simp add: IH(2) cnt2 a occ_features_def)
  have C: "fst ` set (count_features ff (a # fs)) = fst ` set ff \<union> fst ` set (a # fs)"
    unfolding step IH(3) ks by (auto simp: a)
  from A B C show ?case by blast
qed

lemma count_posts_counted:
  "countedc ff \<Longrightarrow>
     countedc (count_posts ff posts)
     \<and> (\<forall>c f. cntc (count_posts ff posts) c f = cntc ff c f + occurrences c f posts)
     \<and> fst ` set (count_posts ff posts)
         = fst ` set ff \<union> (\<Union>p\<in>set posts. fst ` set (features p))"
proof (induction posts arbitrary: ff)
  case Nil
  then show ?case by (simp add: occurrences_def)
next
  case (Cons p posts)
  from count_features_counted [OF Cons.prems, of "features p"]
  have cf: "countedc (count_features ff (features p))"
    "\<And>c f. cntc (count_features ff (features p)) c f = cntc ff c f + occ_features c f (features p)"
    "fst ` set (count_features ff (features p)) = fst ` set ff \<union> fst ` set (features p)"
    by simp_all
  from Cons.IH [OF cf(1)]
  have IH: "countedc (count_posts (count_features ff (features p)) posts)"
    "\<And>c f. cntc (count_posts (count_features ff (features p)) posts) c f
        = cntc (count_features ff (features p)) c f + occurrences c f posts"
    "fst ` set (count_posts (count_features ff (features p)) posts)
        = fst ` set (count_features ff (features p)) \<union> (\<Union>p\<in>set posts. fst ` set (features p))"
    by simp_all
  have A: "countedc (count_posts ff (p # posts))" using IH(1) by simp
  have B: "\<forall>c f. cntc (count_posts ff (p # posts)) c f = cntc ff c f + occurrences c f (p # posts)"
    by (simp add: IH(2) cf(2) occurrences_def)
  have C: "fst ` set (count_posts ff (p # posts))
         = fst ` set ff \<union> (\<Union>p\<in>set (p # posts). fst ` set (features p))"
    by (simp add: IH(3) cf(3) Un_assoc)
  from A B C show ?case by blast
qed

lemma countedc_Nil: "countedc []"
  by (simp add: countedc_def)

lemma cntc_Nil: "cntc [] c f = 0"
  by (simp add: cntc_def)

subsection \<open>The lists of common features\<close>

lemma common_items_filter:
  "common_items tot t d
     = map (common_entry tot) (filter (\<lambda>kn. t \<le> real (snd kn) / real tot) d)"
  by (induction d) (auto simp: common_entry_def Let_def)

lemma common_categories_map:
  "distinct (map fst ff) \<Longrightarrow> fst ` set ff \<inter> fst ` set acc = {} \<Longrightarrow>
   common_categories tot t ff acc
     = acc @ map (\<lambda>(c, d). (c, sort_key (\<lambda>x. - int (frequency x)) (common_items tot t d))) ff"
proof (induction ff arbitrary: acc)
  case Nil
  show ?case by simp
next
  case (Cons a ff)
  obtain c d where a: "a = (c, d)" by (cases a)
  let ?v = "sort_key (\<lambda>x. - int (frequency x)) (common_items tot t d)"
  from Cons.prems(2) have "c \<notin> fst ` set acc" by (auto simp: a)
  then have set: "dict_set acc c ?v = acc @ [(c, ?v)]" by (rule dict_set_append)
  have "distinct (map fst ff)" using Cons.prems(1) by simp
  moreover have "fst ` set ff \<inter> fst ` set (acc @ [(c, ?v)]) = {}"
    using Cons.prems by (auto simp: a)
  ultimately have "common_categories tot t ff (acc @ [(c, ?v)])
     = (acc @ [(c, ?v)]) @ map (\<lambda>(c, d). (c, sort_key (\<lambda>x. - int (frequency x)) (common_items tot t d))) ff"
    by (rule Cons.IH)
  then show ?case by (simp add: a set)
qed

lemma distinct_map_sort_key:
  "distinct (map f (sort_key k xs)) \<longleftrightarrow> distinct (map f xs)"
proof -
  have "mset (map f (sort_key k xs)) = mset (map f xs)" by simp
  then show ?thesis by (rule mset_eq_imp_distinct_iff)
qed

lemma counted_lookup:
  assumes "counted d"
  shows "(k, n) \<in> set d \<longleftrightarrow> cnt d k = n \<and> 0 < n"
proof -
  from assms have di: "distinct (map fst d)" and pos: "\<And>k n. map_of d k = Some n \<Longrightarrow> 0 < n"
    by (auto simp: counted_def)
  have "(k, n) \<in> set d \<longleftrightarrow> map_of d k = Some n" using di by simp
  also have "\<dots> \<longleftrightarrow> cnt d k = n \<and> 0 < n"
    using pos [of k] by (cases "map_of d k") (auto simp: cnt_def)
  finally show ?thesis .
qed

lemma sorted_common:
  "sorted_wrt (\<lambda>a b. frequency b \<le> frequency a) (sort_key (\<lambda>x. - int (frequency x)) xs)"
proof -
  have "sorted (map (\<lambda>x. - int (frequency x)) (sort_key (\<lambda>x. - int (frequency x)) xs))"
    by (rule sorted_sort_key)
  then show ?thesis by (simp add: sorted_map)
qed

lemma common_list:
  fixes tot :: nat and t :: real
  assumes "counted d"
  defines "L \<equiv> sort_key (\<lambda>x. - int (frequency x)) (common_items tot t d)"
  shows "distinct (map feature L)"
    and "set (map feature L) = {f. 0 < cnt d f \<and> t \<le> real (cnt d f) / real tot}"
    and "\<forall>e\<in>set L. frequency e = cnt d (feature e)
           \<and> percentage e = py_round1 (real (frequency e) / real tot * 100)"
    and "sorted_wrt (\<lambda>a b. frequency b \<le> frequency a) L"
proof -
  let ?P = "\<lambda>kn. t \<le> real (snd kn) / real tot"
  have feat: "map feature (map (common_entry tot) (filter ?P d)) = map fst (filter ?P d)"
    by (simp add: common_entry_def comp_def)
  from assms(1) have di: "distinct (map fst d)" by (simp add: counted_def)
  show "distinct (map feature L)"
    unfolding L_def distinct_map_sort_key common_items_filter feat
    using di by (rule distinct_map_filter)
  have setL: "set L = common_entry tot ` {kn \<in> set d. ?P kn}"
    unfolding L_def common_items_filter by simp
  show "set (map feature L) = {f. 0 < cnt d f \<and> t \<le> real (cnt d f) / real tot}"
  proof (intro set_eqI iffI)
    fix f assume "f \<in> set (map feature L)"
    then have "f \<in> feature ` common_entry tot ` {kn \<in> set d. ?P kn}"
      unfolding set_map setL .
    then obtain k n where "(k, n) \<in> set d" "?P (k, n)" "f = feature (common_entry tot (k, n))"
      by auto
    then have "(f, n) \<in> set d" "t \<le> real n / real tot" by (simp_all add: common_entry_def)
    with counted_lookup [OF assms(1), of f n]
    show "f \<in> {f. 0 < cnt d f \<and> t \<le> real (cnt d f) / real tot}" by simp
  next
    fix f assume "f \<in> {f. 0 < cnt d f \<and> t \<le> real (cnt d f) / real tot}"
    then have "0 < cnt d f" "t \<le> real (cnt d f) / real tot" by simp_all
    with counted_lookup [OF assms(1), of f "cnt d f"] have "(f, cnt d f) \<in> set d" by simp
    with \<open>t \<le> real (cnt d f) / real tot\<close>
    have "common_entry tot (f, cnt d f) \<in> set L" unfolding setL by auto
    then have "feature (common_entry tot (f, cnt d f)) \<in> set (map feature L)"
      by (simp only: set_map image_eqI)
    then show "f \<in> set (map feature L)" by (simp add: common_entry_def)
  qed
  show "\<forall>e\<in>set L. frequency e = cnt d (feature e)
           \<and> percentage e = py_round1 (real (frequency e) / real tot * 100)"
  proof
    fix e assume "e \<in> set L"
    then obtain k n where kn: "(k, n) \<in> set d" "e = common_entry tot (k, n)"
      unfolding setL by auto
    with counted_lookup [OF assms(1), of k n]
    show "frequency e = cnt d (feature e)
           \<and> percentage e = py_round1 (real (frequency e) / real tot * 100)"
      by (simp add: common_entry_def)
  qed
  show "sorted_wrt (\<lambda>a b. frequency b \<le> frequency a) L"
    unfolding L_def by (rule sorted_common)
qed

lemma round_half_even_near: "\<bar>real_of_int (round_half_even x) - x\<bar> \<le> 1 / 2"
proof -
  have "real_of_int \<lfloor>x\<rfloor> \<le> x" "x < real_of_int \<lfloor>x\<rfloor> + 1" by linarith+
  then show ?thesis by (auto simp: round_half_even_def Let_def)
qed

lemma py_round1_near:
  "\<bar>py_round1 x - x\<bar> \<le> 1 / 20 \<and> (\<exists>k::int. py_round1 x = real_of_int k / 10)"
proof -
  have "\<bar>real_of_int (round_half_even (x * 10)) - x * 10\<bar> \<le> 1 / 2"
    by (rule round_half_even_near)
  then have "\<bar>py_round1 x - x\<bar> \<le> 1 / 20" by (simp add: py_round1_def field_simps)
  then show ?thesis by (auto simp: py_round1_def)
qed


subsection \<open>The result of \<open>find_common_features\<close>\<close>

lemma find_common_features_Nil: "find_common_features [] t = []"
  by (simp add: find_common_features_def)

lemma find_common_features_map:
  assumes "posts \<noteq> []"
  shows "find_common_features posts t
     = map (\<lambda>(c, d). (c, sort_key (\<lambda>x. - int (frequency x)) (common_items (length posts) t d)))
         (count_posts [] posts)"
proof -
  have "countedc (count_posts [] posts)"
    using count_posts_counted [OF countedc_Nil, of posts] by blast
  then have "distinct (map fst (count_posts [] posts))" by (simp add: countedc_def)
  then show ?thesis
    using assms common_categories_map [of "count_posts [] posts" "[]" "length posts" t]
    by (simp add: find_common_features_def Let_def)
qed

lemma find_common_features_keys:
  assumes "posts \<noteq> []"
  shows "distinct (map fst (find_common_features posts t))"
    and "set (map fst (find_common_features posts t)) = (\<Union>p\<in>set posts. fst ` set (features p))"
proof -
  from count_posts_counted [OF countedc_Nil, of posts]
  have c: "countedc (count_posts [] posts)"
    and k: "fst ` set (count_posts [] posts) = (\<Union>p\<in>set posts. fst ` set (features p))"
    by simp_all
  have keys: "map fst (find_common_features posts t) = map fst (count_posts [] posts)"
    unfolding find_common_features_map [OF assms] by (simp add: comp_def case_prod_unfold)
  show "distinct (map fst (find_common_features posts t))"
    unfolding keys using c by (simp add: countedc_def)
  show "set (map fst (find_common_features posts t)) = (\<Union>p\<in>set posts. fst ` set (features p))"
    unfolding keys using k by simp
qed

lemma find_common_features_entry:
  assumes "(c, L) \<in> set (find_common_features posts t)"
  shows "posts \<noteq> [] \<and> (\<exists>d. counted d \<and> (\<forall>f. cnt d f = occurrences c f posts)
     \<and> L = sort_key (\<lambda>x. - int (frequency x)) (common_items (length posts) t d))"
proof -
  from assms have ne: "posts \<noteq> []" by (auto simp: find_common_features_Nil)
  from count_posts_counted [OF countedc_Nil, of posts]
  have cc: "countedc (count_posts [] posts)"
    and cn: "\<And>c f. cntc (count_posts [] posts) c f = occurrences c f posts"
    by (simp_all add: cntc_Nil)
  from assms obtain d where d: "(c, d) \<in> set (count_posts [] posts)"
    "L = sort_key (\<lambda>x. - int (frequency x)) (common_items (length posts) t d)"
    unfolding find_common_features_map [OF ne] by auto
  from cc d(1) have m: "map_of (count_posts [] posts) c = Some d" by (simp add: countedc_def)
  with cc have "counted d" by (auto simp: countedc_def)
  moreover have "\<forall>f. cnt d f = occurrences c f posts"
    using cn [of c] m by (simp add: cntc_def)
  ultimately show ?thesis using ne d(2) by blast
qed



subsection \<open>Occurrences and posts\<close>

lemma posts_containing_le: "posts_containing c f posts \<le> occurrences c f posts"
proof (induction posts)
  case Nil
  show ?case by (simp add: posts_containing_def occurrences_def)
next
  case (Cons p posts)
  then show ?case by (auto simp: posts_containing_def occurrences_def)
qed

lemma posts_containing_less:
  "\<exists>p\<in>set posts. 2 \<le> occ_features c f (features p) \<Longrightarrow>
   posts_containing c f posts < occurrences c f posts"
proof (induction posts)
  case Nil
  then show ?case by simp
next
  case (Cons p posts)
  show ?case
  proof (cases "2 \<le> occ_features c f (features p)")
    case True
    with posts_containing_le [of c f posts] show ?thesis
      by (simp add: posts_containing_def occurrences_def)
  next
    case False
    with Cons.prems have "\<exists>p\<in>set posts. 2 \<le> occ_features c f (features p)" by simp
    from Cons.IH [OF this] show ?thesis
      by (auto simp: posts_containing_def occurrences_def)
  qed
qed



section \<open>The newest file that matches\<close>

lemma max_mtime_from_mem: "max_mtime_from b fs \<in> set (b # fs)"
  by (induction fs arbitrary: b) (auto split: if_splits)

lemma max_mtime_from_ge_start: "st_mtime b \<le> st_mtime (max_mtime_from b fs)"
proof (induction fs arbitrary: b)
  case Nil
  show ?case by simp
next
  case (Cons f fs)
  show ?case
  proof (cases "st_mtime f > st_mtime b")
    case True
    with Cons.IH [of f] show ?thesis by simp
  next
    case False
    with Cons.IH [of b] show ?thesis by simp
  qed
qed

lemma max_mtime_from_ge: "g \<in> set (b # fs) \<Longrightarrow> st_mtime g \<le> st_mtime (max_mtime_from b fs)"
proof (induction fs arbitrary: b)
  case Nil
  then show ?case by simp
next
  case (Cons f fs)
  show ?case
  proof (cases "st_mtime f > st_mtime b")
    case True
    from Cons.prems consider "g = b" | "g \<in> set (f # fs)" by auto
    then show ?thesis
    proof cases
      case 1
      with True max_mtime_from_ge_start [of f fs] show ?thesis by simp
    next
      case 2
      with True Cons.IH [of f] show ?thesis by simp
    qed
  next
    case False
    from Cons.prems consider "g = f" | "g \<in> set (b # fs)" by auto
    then show ?thesis
    proof cases
      case 1
      with False max_mtime_from_ge_start [of b fs] show ?thesis by simp
    next
      case 2
      with False Cons.IH [of b] show ?thesis by simp
    qed
  qed
qed

text \<open>The newest of the files of \<open>dir\<close> that match \<open>pattern\<close>.\<close>

lemma newest_of_glob:
  assumes "glob dir pattern = f # fs"
  shows "max_mtime_from f fs \<in> set dir \<and> glob_match pattern (name (max_mtime_from f fs))
    \<and> (\<forall>g\<in>set dir. glob_match pattern (name g) \<longrightarrow> st_mtime g \<le> st_mtime (max_mtime_from f fs))"
proof -
  have "max_mtime_from f fs \<in> set (glob dir pattern)"
    unfolding assms by (rule max_mtime_from_mem)
  then have 1: "max_mtime_from f fs \<in> set dir" "glob_match pattern (name (max_mtime_from f fs))"
    by (simp_all add: glob_def)
  have 2: "\<forall>g\<in>set dir. glob_match pattern (name g) \<longrightarrow> st_mtime g \<le> st_mtime (max_mtime_from f fs)"
  proof (intro ballI impI)
    fix g assume "g \<in> set dir" "glob_match pattern (name g)"
    then have "g \<in> set (glob dir pattern)" by (simp add: glob_def)
    then have "g \<in> set (f # fs)" unfolding assms .
    then show "st_mtime g \<le> st_mtime (max_mtime_from f fs)" by (rule max_mtime_from_ge)
  qed
  from 1 2 show ?thesis by blast
qed

subsection \<open>What the patterns match\<close>

lemma glob_match_star: "glob_match (CHR ''*'' # p) s \<longleftrightarrow> (\<exists>a b. s = a @ b \<and> glob_match p b)"
proof (induction s)
  case Nil
  show ?case by simp
next
  case (Cons c cs)
  show ?case
  proof
    assume "glob_match (CHR ''*'' # p) (c # cs)"
    then consider "glob_match p (c # cs)" | "glob_match (CHR ''*'' # p) cs" by auto
    then show "\<exists>a b. c # cs = a @ b \<and> glob_match p b"
    proof cases
      case 1
      then have "c # cs = [] @ (c # cs) \<and> glob_match p (c # cs)" by simp
      then show ?thesis by blast
    next
      case 2
      then obtain a b where "cs = a @ b" "glob_match p b" using Cons.IH by blast
      then have "c # cs = (c # a) @ b \<and> glob_match p b" by simp
      then show ?thesis by blast
    qed
  next
    assume "\<exists>a b. c # cs = a @ b \<and> glob_match p b"
    then obtain a b where ab: "c # cs = a @ b" "glob_match p b" by blast
    show "glob_match (CHR ''*'' # p) (c # cs)"
    proof (cases a)
      case Nil
      with ab have "glob_match p (c # cs)" by simp
      then show ?thesis by simp
    next
      case (Cons x xs)
      with ab have "cs = xs @ b" by simp
      with ab(2) Cons.IH have "glob_match (CHR ''*'' # p) cs" by blast
      then show ?thesis by simp
    qed
  qed
qed

lemma glob_match_literal:
  "CHR ''*'' \<notin> set lit \<Longrightarrow> glob_match (lit @ p) s \<longleftrightarrow> (\<exists>r. s = lit @ r \<and> glob_match p r)"
proof (induction lit arbitrary: s)
  case Nil
  show ?case by simp
next
  case (Cons x lit)
  then have x: "x \<noteq> CHR ''*''" and lit: "CHR ''*'' \<notin> set lit" by auto
  show ?case
  proof (cases s)
    case Nil
    with x show ?thesis by simp
  next
    case (Cons c cs)
    with x Cons.IH [OF lit, of cs] show ?thesis by auto
  qed
qed

lemma glob_match_csv: "glob_match ''*.csv'' s \<longleftrightarrow> (\<exists>stem. s = stem @ ''.csv'')"
proof -
  have "glob_match (''.csv'' @ []) b \<longleftrightarrow> b = ''.csv''" for b
    by (subst glob_match_literal) auto
  then show ?thesis by (simp add: glob_match_star)
qed

lemma glob_match_brand_guidelines:
  "glob_match ''brand_guidelines*'' s \<longleftrightarrow> (\<exists>rest. s = ''brand_guidelines'' @ rest)"
proof -
  have "glob_match (''brand_guidelines'' @ ''*'') s
      \<longleftrightarrow> (\<exists>r. s = ''brand_guidelines'' @ r \<and> glob_match ''*'' r)"
    by (rule glob_match_literal) simp
  moreover have "glob_match ''*'' r" for r by (simp add: glob_match_star)
  ultimately show ?thesis by simp
qed

lemma glob_match_brand_pdf:
  "glob_match ''brand_guidelines_*.pdf'' s
     \<longleftrightarrow> (\<exists>mid. s = ''brand_guidelines_'' @ mid @ ''.pdf'')"
proof -
  have 1: "glob_match (''brand_guidelines_'' @ ''*.pdf'') s
      \<longleftrightarrow> (\<exists>r. s = ''brand_guidelines_'' @ r \<and> glob_match ''*.pdf'' r)"
    by (rule glob_match_literal) simp
  have "glob_match (''.pdf'' @ []) b \<longleftrightarrow> b = ''.pdf''" for b
    by (subst glob_match_literal) auto
  then have 2: "glob_match ''*.pdf'' r \<longleftrightarrow> (\<exists>mid. r = mid @ ''.pdf'')" for r
    by (simp add: glob_match_star)
  from 1 2 show ?thesis by auto
qed

text \<open>
  C7. Whenever files of the folder match the pattern, the file an endpoint goes on with is one
  of them and none of them has a greater modification time: the \<open>*.csv\<close> file of
  \<open>uploads/brand_images\<close> in \<open>analyze_past_posts\<close>, the \<open>brand_guidelines_*.pdf\<close> file of the
  uploads folder in \<open>generate_design_from_text\<close> (once \<open>analyze.json\<close> is there and loads), and
  the \<open>brand_guidelines*\<close> file of the uploads folder in the compliance check (once the
  uploaded image opens), which reads that file and no other and names it in its answer.
  Among several newest files \<open>max\<close> takes the first that \<open>glob\<close> lists. Names are matched as on
  a case-sensitive file system.
\<close>

theorem newest_matching_file_is_used:
  "(glob dir ''*.csv'' \<noteq> [] \<longrightarrow>
      (\<exists>f. analyze_past_posts_csv (Some dir) = Inr f
         \<and> f \<in> set dir \<and> glob_match ''*.csv'' (name f)
         \<and> (\<forall>g\<in>set dir. glob_match ''*.csv'' (name g) \<longrightarrow> st_mtime g \<le> st_mtime f)))
   \<and> (glob uploads_dir ''brand_guidelines_*.pdf'' \<noteq> [] \<longrightarrow>
      (\<exists>f. generate_design_brand_pdf True (Returns u) uploads_dir = Inr f
         \<and> f \<in> set uploads_dir \<and> glob_match ''brand_guidelines_*.pdf'' (name f)
         \<and> (\<forall>g\<in>set uploads_dir. glob_match ''brand_guidelines_*.pdf'' (name g)
               \<longrightarrow> st_mtime g \<le> st_mtime f)))
   \<and> (glob (uploads w) ''brand_guidelines*'' \<noteq> [] \<and> image_open w content = Returns u' \<longrightarrow>
      (\<exists>f. f \<in> set (uploads w) \<and> glob_match ''brand_guidelines*'' (name f)
         \<and> (\<forall>g\<in>set (uploads w). glob_match ''brand_guidelines*'' (name g)
               \<longrightarrow> st_mtime g \<le> st_mtime f)
         \<and> compliance_check w content =
             (case read_guidelines w (name f) of
                Raises msg \<Rightarrow>
                  Inl (HTTPException 500
                        (str_exn (HTTPException 500 ''Failed to load brand guidelines'')))
              | Returns bg \<Rightarrow>
                  (case check_compliance (generate_content w) bg content of
                     Inl e \<Rightarrow> Inl (HTTPException 500 (str_exn e))
                   | Inr (AiError err) \<Rightarrow> Inl (HTTPException 500 (str_exn (HTTPException 500 err)))
                   | Inr (AiParsed ai) \<Rightarrow>
                       Inr (Checked (if compliant ai then ''passed'' else ''failed'')
                              (compliant ai) (raw_analysis ai) (status ai) (name f))))))"
proof (intro conjI impI)
  assume "glob dir ''*.csv'' \<noteq> []"
  then obtain f fs where g: "glob dir ''*.csv'' = f # fs" by (cases "glob dir ''*.csv''") auto
  then have "analyze_past_posts_csv (Some dir) = Inr (max_mtime_from f fs)"
    by (simp add: analyze_past_posts_csv_def)
  with newest_of_glob [OF g]
  show "\<exists>f. analyze_past_posts_csv (Some dir) = Inr f
         \<and> f \<in> set dir \<and> glob_match ''*.csv'' (name f)
         \<and> (\<forall>g\<in>set dir. glob_match ''*.csv'' (name g) \<longrightarrow> st_mtime g \<le> st_mtime f)"
    by blast
next
  assume "glob uploads_dir ''brand_guidelines_*.pdf'' \<noteq> []"
  then obtain f fs where g: "glob uploads_dir ''brand_guidelines_*.pdf'' = f # fs"
    by (cases "glob uploads_dir ''brand_guidelines_*.pdf''") auto
  then have "generate_design_brand_pdf True (Returns u) uploads_dir = Inr (max_mtime_from f fs)"
    by (simp add: generate_design_brand_pdf_def)
  with newest_of_glob [OF g]
  show "\<exists>f. generate_design_brand_pdf True (Returns u) uploads_dir = Inr f
         \<and> f \<in> set uploads_dir \<and> glob_match ''brand_guidelines_*.pdf'' (name f)
         \<and> (\<forall>g\<in>set uploads_dir. glob_match ''brand_guidelines_*.pdf'' (name g)
               \<longrightarrow> st_mtime g \<le> st_mtime f)"
    by blast
next
  assume a: "glob (uploads w) ''brand_guidelines*'' \<noteq> [] \<and> image_open w content = Returns u'"
  then obtain f fs where g: "glob (uploads w) ''brand_guidelines*'' = f # fs"
    by (cases "glob (uploads w) ''brand_guidelines*''") auto
  let ?f = "max_mtime_from f fs"
  have "compliance_check w content =
             (case read_guidelines w (name ?f) of
                Raises msg \<Rightarrow>
                  Inl (HTTPException 500
                        (str_exn (HTTPException 500 ''Failed to load brand guidelines'')))
              | Returns bg \<Rightarrow>
                  (case check_compliance (generate_content w) bg content of
                     Inl e \<Rightarrow> Inl (HTTPException 500 (str_exn e))
                   | Inr (AiError err) \<Rightarrow> Inl (HTTPException 500 (str_exn (HTTPException 500 err)))
                   | Inr (AiParsed ai) \<Rightarrow>
                       Inr (Checked (if compliant ai then ''passed'' else ''failed'')
                              (compliant ai) (raw_analysis ai) (status ai) (name ?f))))"
    using a g
    by (simp add: compliance_check_def compliance_check_body_def Let_def
        split: outcome.splits sum.splits ai_result.splits)
  with newest_of_glob [OF g]
  show "\<exists>f. f \<in> set (uploads w) \<and> glob_match ''brand_guidelines*'' (name f)
         \<and> (\<forall>g\<in>set (uploads w). glob_match ''brand_guidelines*'' (name g)
               \<longrightarrow> st_mtime g \<le> st_mtime f)
         \<and> compliance_check w content =
             (case read_guidelines w (name f) of
                Raises msg \<Rightarrow>
                  Inl (HTTPException 500
                        (str_exn (HTTPException 500 ''Failed to load brand guidelines'')))
              | Returns bg \<Rightarrow>
                  (case check_compliance (generate_content w) bg content of
                     Inl e \<Rightarrow> Inl (HTTPException 500 (str_exn e))
                   | Inr (AiError err) \<Rightarrow> Inl (HTTPException 500 (str_exn (HTTPException 500 err)))
                   | Inr (AiParsed ai) \<Rightarrow>
                       Inr (Checked (if compliant ai then ''passed'' else ''failed'')
                              (compliant ai) (raw_analysis ai) (status ai) (name f))))"
    by blast
qed


theorem newest_matching_file_is_used_witness:
  "analyze_past_posts_csv (Some example_brand_images)
     = Inr \<lparr>name = ''posts_new.csv'', st_mtime = 40\<rparr>
   \<and> st_mtime \<lparr>name = ''posts_old.csv'', st_mtime = 10\<rparr>
       \<le> st_mtime \<lparr>name = ''posts_new.csv'', st_mtime = 40\<rparr>
   \<and> generate_design_brand_pdf True (Returns ()) example_uploads
     = Inr \<lparr>name = ''brand_guidelines_20240301.pdf'', st_mtime = 300\<rparr>
   \<and> st_mtime \<lparr>name = ''brand_guidelines_20240201.pdf'', st_mtime = 300\<rparr>
       \<le> st_mtime \<lparr>name = ''brand_guidelines_20240301.pdf'', st_mtime = 300\<rparr>
   \<and> compliance_check (example_cc_world\<lparr>uploads := example_uploads\<rparr>) ''png''
     = Inr (Checked ''failed'' False ''COMPLIANCE STATUS: NON-COMPLIANT''
              ''COMPLIANCE STATUS: NON-COMPLIANT'' ''brand_guidelines_notes.txt'')
   \<and> (\<exists>f. f \<in> set example_uploads \<and> glob_match ''brand_guidelines*'' (name f)
          \<and> 500 \<le> st_mtime f)"
proof -
  let ?w = "example_cc_world\<lparr>uploads := example_uploads\<rparr>"
  note T = newest_matching_file_is_used
    [where dir = example_brand_images and uploads_dir = example_uploads and u = "()"
       and w = ?w and content = "''png''" and u' = "()"]
  have csv: "glob example_brand_images ''*.csv''
      = [\<lparr>name = ''posts_old.csv'', st_mtime = 10\<rparr>, \<lparr>name = ''posts_new.csv'', st_mtime = 40\<rparr>]"
    by (simp add: glob_def example_brand_images_def)
  have run1: "analyze_past_posts_csv (Some example_brand_images)
     = Inr \<lparr>name = ''posts_new.csv'', st_mtime = 40\<rparr>"
    by (simp add: analyze_past_posts_csv_def csv)
  have old: "\<lparr>name = ''posts_old.csv'', st_mtime = 10\<rparr> \<in> set example_brand_images"
    "glob_match ''*.csv'' (name \<lparr>name = ''posts_old.csv'', st_mtime = 10\<rparr>)"
    by (simp_all add: example_brand_images_def)
  from csv have "glob example_brand_images ''*.csv'' \<noteq> []" by simp
  with T obtain f where f: "analyze_past_posts_csv (Some example_brand_images) = Inr f"
    "\<forall>g\<in>set example_brand_images. glob_match ''*.csv'' (name g) \<longrightarrow> st_mtime g \<le> st_mtime f"
    by blast
  from f(1) run1 have "f = \<lparr>name = ''posts_new.csv'', st_mtime = 40\<rparr>" by simp
  with f(2) old have c1: "st_mtime \<lparr>name = ''posts_old.csv'', st_mtime = 10\<rparr>
       \<le> st_mtime \<lparr>name = ''posts_new.csv'', st_mtime = 40\<rparr>" by blast

  have pdf: "glob example_uploads ''brand_guidelines_*.pdf''
      = [\<lparr>name = ''brand_guidelines_20240101.pdf'', st_mtime = 100\<rparr>,
         \<lparr>name = ''brand_guidelines_20240301.pdf'', st_mtime = 300\<rparr>,
         \<lparr>name = ''brand_guidelines_20240201.pdf'', st_mtime = 300\<rparr>]"
    by (simp add: glob_def example_uploads_def)
  have run2: "generate_design_brand_pdf True (Returns ()) example_uploads
     = Inr \<lparr>name = ''brand_guidelines_20240301.pdf'', st_mtime = 300\<rparr>"
    by (simp add: generate_design_brand_pdf_def pdf)
  have feb: "\<lparr>name = ''brand_guidelines_20240201.pdf'', st_mtime = 300\<rparr> \<in> set example_uploads"
    "glob_match ''brand_guidelines_*.pdf''
       (name \<lparr>name = ''brand_guidelines_20240201.pdf'', st_mtime = 300\<rparr>)"
    by (simp_all add: example_uploads_def)
  from pdf have "glob example_uploads ''brand_guidelines_*.pdf'' \<noteq> []" by simp
  with T obtain f2 where f2: "generate_design_brand_pdf True (Returns ()) example_uploads = Inr f2"
    "\<forall>g\<in>set example_uploads. glob_match ''brand_guidelines_*.pdf'' (name g)
        \<longrightarrow> st_mtime g \<le> st_mtime f2"
    by blast
  from f2(1) run2 have "f2 = \<lparr>name = ''brand_guidelines_20240301.pdf'', st_mtime = 300\<rparr>" by simp
  with f2(2) feb have c2: "st_mtime \<lparr>name = ''brand_guidelines_20240201.pdf'', st_mtime = 300\<rparr>
       \<le> st_mtime \<lparr>name = ''brand_guidelines_20240301.pdf'', st_mtime = 300\<rparr>" by blast

  have gl: "glob (uploads ?w) ''brand_guidelines*''
      = [\<lparr>name = ''brand_guidelines_20240101.pdf'', st_mtime = 100\<rparr>,
         \<lparr>name = ''brand_guidelines_20240301.pdf'', st_mtime = 300\<rparr>,
         \<lparr>name = ''brand_guidelines_notes.txt'', st_mtime = 500\<rparr>,
         \<lparr>name = ''brand_guidelines_20240201.pdf'', st_mtime = 300\<rparr>]"
    by (simp add: glob_def example_uploads_def)
  have io: "image_open ?w ''png'' = Returns ()" by (simp add: example_cc_world_def)
  have pr: "parse_response ''COMPLIANCE STATUS: NON-COMPLIANT''
      = \<lparr>raw_analysis = ''COMPLIANCE STATUS: NON-COMPLIANT'', compliant = False,
         status = ''COMPLIANCE STATUS: NON-COMPLIANT''\<rparr>"
    by code_simp
  have c3: "compliance_check ?w ''png''
     = Inr (Checked ''failed'' False ''COMPLIANCE STATUS: NON-COMPLIANT''
              ''COMPLIANCE STATUS: NON-COMPLIANT'' ''brand_guidelines_notes.txt'')"
    using gl
    by (simp add: compliance_check_def compliance_check_body_def check_compliance_def
        example_cc_world_def pr)
  have nts: "\<lparr>name = ''brand_guidelines_notes.txt'', st_mtime = 500\<rparr> \<in> set (uploads ?w)"
    "glob_match ''brand_guidelines*'' (name \<lparr>name = ''brand_guidelines_notes.txt'', st_mtime = 500\<rparr>)"
    by (simp_all add: example_uploads_def)
  from gl have "glob (uploads ?w) ''brand_guidelines*'' \<noteq> []" by simp
  with T io obtain f3 where f3: "f3 \<in> set (uploads ?w)"
    "glob_match ''brand_guidelines*'' (name f3)"
    "\<forall>g\<in>set (uploads ?w). glob_match ''brand_guidelines*'' (name g)
        \<longrightarrow> st_mtime g \<le> st_mtime f3"
    by blast
  from f3(3) nts have "500 \<le> st_mtime f3" by fastforce
  with f3(1,2) have c4: "\<exists>f. f \<in> set example_uploads \<and> glob_match ''brand_guidelines*'' (name f)
          \<and> 500 \<le> st_mtime f" by auto
  from run1 c1 run2 c2 c3 c4 show ?thesis by blast
qed

section \<open>Posting without a token\<close>

text \<open>
  C9. When \<open>config.json\<close> is absent, or holds an object without an \<open>access_token\<close> entry, the
  \<open>/post\<close> endpoint raises \<open>HTTPException\<close> 401 with the detail \<open>Not authenticated. Please
  visit /auth/login first\<close>, and it has sent no request to LinkedIn and written no file.
\<close>

theorem post_linkedin_not_authenticated:
  assumes "f = Absent \<or> (\<exists>config. f = Parsed (JObject config) \<and> map_of config ''access_token'' = None)"
  shows "post_linkedin f li text image_content
     = (Inl (HTTPException 401 ''Not authenticated. Please visit /auth/login first''), [])"
proof -
  from assms have "get_access_token f = Inr JNull"
    by (auto simp: get_access_token_def load_config_def)
  then show ?thesis by (simp add: post_linkedin_def)
qed

theorem post_linkedin_not_authenticated_witness:
  "post_linkedin Absent example_linkedin ''Hello'' ''image bytes''
     = (Inl (HTTPException 401 ''Not authenticated. Please visit /auth/login first''), [])
   \<and> post_linkedin (Parsed (JObject [(''client_id'', JString ''abc'')])) example_linkedin
        ''Hello'' ''image bytes''
     = (Inl (HTTPException 401 ''Not authenticated. Please visit /auth/login first''), [])"
proof -
  have 1: "Absent = Absent \<or> (\<exists>config. Absent = Parsed (JObject config)
      \<and> map_of config ''access_token'' = None)" by simp
  have "map_of [(''client_id'', JString ''abc'')] ''access_token'' = None" by simp
  then have 2: "Parsed (JObject [(''client_id'', JString ''abc'')]) = Absent
      \<or> (\<exists>config. Parsed (JObject [(''client_id'', JString ''abc'')]) = Parsed (JObject config)
      \<and> map_of config ''access_token'' = None)" by blast
  from post_linkedin_not_authenticated [OF 1, of example_linkedin "''Hello''" "''image bytes''"]
    post_linkedin_not_authenticated [OF 2, of example_linkedin "''Hello''" "''image bytes''"]
  show ?thesis by blast
qed

text \<open>With a token on file the endpoint does go to LinkedIn and writes its temporary file.\<close>

lemma post_linkedin_authenticated_example:
  "post_linkedin (Parsed (JObject [(''access_token'', JString ''tok'')])) example_linkedin
      ''Hello'' ''image bytes''
   = (Inr (Posted (JString ''post-1'')),
      [ApiCall ''https://api.linkedin.com/v2/userinfo'',
       FileWrite ''/tmp/tmpabc.png'' ''image bytes'',
       ApiCall ''https://api.linkedin.com/v2/assets?action=registerUpload'',
       ApiCall ''https://upload.example/1'',
       ApiCall ''https://api.linkedin.com/v2/ugcPosts'',
       FileRemove ''/tmp/tmpabc.png''])"
  by (simp add: post_linkedin_def get_access_token_def load_config_def post_linkedin_body_def
      post_linkedin_upload_def of_api_def json_get_def example_linkedin_def)

section \<open>Code blocks in the model's answer\<close>

declare findall.simps [simp del]

lemma split_at_fence_Some:
  "split_at_fence s = Some (b, r) \<Longrightarrow> s = b @ fence @ r"
proof (induction s arbitrary: b)
  case Nil
  then show ?case by simp
next
  case (Cons c cs)
  show ?case
  proof (cases "startswith (c # cs) fence")
    case True
    then obtain x where x: "c # cs = fence @ x" by (auto simp: startswith_iff)
    then have "drop 3 (c # cs) = x" by (simp add: fence_def)
    moreover from True Cons.prems have "b = []" "r = drop 3 (c # cs)" by simp_all
    ultimately show ?thesis using x by simp
  next
    case False
    with Cons.prems obtain b' where b': "split_at_fence cs = Some (b', r)" "b = c # b'"
      by (auto split: option.splits)
    from Cons.IH [OF b'(1)] b'(2) show ?thesis by simp
  qed
qed

lemma split_at_fence_finds:
  "s = b @ fence @ r \<Longrightarrow> split_at_fence s \<noteq> None"
proof (induction s arbitrary: b)
  case Nil
  then show ?case by (simp add: fence_def)
next
  case (Cons c cs)
  show ?case
  proof (cases "startswith (c # cs) fence")
    case True
    then show ?thesis by simp
  next
    case False
    have "b \<noteq> []"
    proof
      assume "b = []"
      with Cons.prems have "startswith (c # cs) fence" by (simp add: startswith_iff)
      with False show False by simp
    qed
    then obtain b' where "b = c # b'" "cs = b' @ fence @ r"
      using Cons.prems by (cases b) auto
    from Cons.IH [OF this(2)] False show ?thesis by (auto split: option.splits)
  qed
qed

lemma match_here_Some:
  "match_here openers s = Some (b, r) \<Longrightarrow> \<exists>opener\<in>set openers. s = opener @ b @ fence @ r"
proof (induction openers)
  case Nil
  then show ?case by simp
next
  case (Cons opener openers)
  show ?case
  proof (cases "startswith s opener \<and> split_at_fence (drop (length opener) s) \<noteq> None")
    case True
    with Cons.prems have sp: "split_at_fence (drop (length opener) s) = Some (b, r)"
      by (auto split: option.splits)
    from True obtain x where x: "s = opener @ x" by (auto simp: startswith_iff)
    then have "drop (length opener) s = x" by simp
    with split_at_fence_Some [OF sp] x have "s = opener @ b @ fence @ r" by simp
    then show ?thesis by simp
  next
    case False
    with Cons.prems have "match_here openers s = Some (b, r)" by (auto split: option.splits)
    from Cons.IH [OF this] show ?thesis by simp
  qed
qed

lemma match_here_finds:
  "opener \<in> set openers \<Longrightarrow> s = opener @ b @ fence @ r \<Longrightarrow> match_here openers s \<noteq> None"
proof (induction openers)
  case Nil
  then show ?case by simp
next
  case (Cons o1 openers)
  show ?case
  proof (cases "o1 = opener")
    case True
    have "startswith s o1" using True Cons.prems(2) by (simp add: startswith_iff)
    moreover have "drop (length o1) s = b @ fence @ r" using True Cons.prems(2) by simp
    then have "split_at_fence (drop (length o1) s) \<noteq> None" by (rule split_at_fence_finds)
    ultimately show ?thesis by (auto split: option.splits)
  next
    case False
    with Cons.prems have "opener \<in> set openers" by simp
    from Cons.IH [OF this Cons.prems(2)] show ?thesis by (auto split: option.splits)
  qed
qed

text \<open>\<open>findall\<close> finds nothing exactly when the text has no match of the pattern.\<close>

lemma findall_Nil_iff:
  "findall openers t = [] \<longleftrightarrow>
     \<not> (\<exists>pre opener b r. opener \<in> set openers \<and> t = pre @ opener @ b @ fence @ r)"
proof (induction openers t rule: findall.induct)
  case (1 openers)
  show ?case by (simp add: findall.simps fence_def)
next
  case (2 openers c cs)
  show ?case
  proof (cases "match_here openers (c # cs)")
    case (Some m)
    obtain b r where m: "m = (b, r)" by (cases m)
    from Some m have "findall openers (c # cs) \<noteq> []" by (simp add: findall.simps)
    moreover from match_here_Some [of openers "c # cs" b r] Some m
    obtain opener where "opener \<in> set openers" "c # cs = [] @ opener @ b @ fence @ r" by auto
    then have "\<exists>pre opener b r. opener \<in> set openers \<and> c # cs = pre @ opener @ b @ fence @ r"
      by blast
    ultimately show ?thesis by simp
  next
    case None
    then have step: "findall openers (c # cs) = findall openers cs" by (simp add: findall.simps)
    have "(\<exists>pre opener b r. opener \<in> set openers \<and> c # cs = pre @ opener @ b @ fence @ r)
        \<longleftrightarrow> (\<exists>pre opener b r. opener \<in> set openers \<and> cs = pre @ opener @ b @ fence @ r)"
    proof
      assume "\<exists>pre opener b r. opener \<in> set openers \<and> c # cs = pre @ opener @ b @ fence @ r"
      then obtain pre opener b r where d: "opener \<in> set openers"
        "c # cs = pre @ opener @ b @ fence @ r" by blast
      have "pre \<noteq> []"
      proof
        assume "pre = []"
        with d have "c # cs = opener @ b @ fence @ r" by simp
        from match_here_finds [OF d(1) this] None show False by simp
      qed
      then obtain pre' where "pre = c # pre'" "cs = pre' @ opener @ b @ fence @ r"
        using d(2) by (cases pre) auto
      with d(1) show "\<exists>pre opener b r. opener \<in> set openers \<and> cs = pre @ opener @ b @ fence @ r"
        by blast
    next
      assume "\<exists>pre opener b r. opener \<in> set openers \<and> cs = pre @ opener @ b @ fence @ r"
      then obtain pre opener b r where d: "opener \<in> set openers"
        "cs = pre @ opener @ b @ fence @ r" by blast
      then have "c # cs = (c # pre) @ opener @ b @ fence @ r" by simp
      with d(1) show "\<exists>pre opener b r. opener \<in> set openers \<and> c # cs = pre @ opener @ b @ fence @ r"
        by blast
    qed
    with "2.IH"(1) [OF None] step show ?thesis by simp
  qed
qed

lemma str_nat_500: "str_nat 500 = ''500''"
  by code_simp

lemma extract_code_None_iff:
  "extract_code_from_response text = None \<longleftrightarrow>
     text = None \<or> text = Some [] \<or>
     (\<exists>t. text = Some t
        \<and> \<not> (\<exists>pre opener b r. opener \<in> set (tagged_openers @ bare_openers)
                \<and> t = pre @ opener @ b @ fence @ r))"
proof (cases "text")
  case None
  then show ?thesis by (simp add: extract_code_from_response_def)
next
  case (Some t)
  show ?thesis
  proof (cases "t = []")
    case True
    with Some show ?thesis by (simp add: extract_code_from_response_def)
  next
    case False
    have "extract_code_from_response (Some t) = None
        \<longleftrightarrow> findall tagged_openers t = [] \<and> findall bare_openers t = []"
      using False by (simp add: extract_code_from_response_def Let_def)
    also have "\<dots> \<longleftrightarrow> \<not> (\<exists>pre opener b r. opener \<in> set (tagged_openers @ bare_openers)
                \<and> t = pre @ opener @ b @ fence @ r)"
      unfolding findall_Nil_iff set_append by blast
    finally show ?thesis using Some False by simp
  qed
qed

lemma generate_design_no_code:
  assumes "t \<noteq> []" "extract_code_from_response (Some t) = None"
  shows "generate_design (Returns (Some t)) write_file request_prompt
     = (Inl (HTTPException 500 ''500: No code block found in AI response''), [])"
  using assms by (simp add: generate_design_def generate_design_body_def digit_char_def)

text \<open>
  C6. \<open>extract_code_from_response\<close> returns \<open>None\<close> exactly when the text is \<open>None\<close> or empty
  or nowhere has an opening fence (with one of the language tags, or bare) followed by a
  newline and, later, a closing fence; otherwise it returns the matched blocks, those of the
  first pattern before those of the second, joined by a blank line. When the model's non-empty
  answer has no such block, \<open>/api/generate-design\<close> raises \<open>HTTPException\<close> 500; the detail it
  raises inside the \<open>try\<close> is \<open>No code block found in AI response\<close>, but the handler
  \<open>except Exception\<close> catches that exception and raises a new one whose detail is its
  \<open>str\<close>: \<open>500: No code block found in AI response\<close>.
\<close>

theorem generate_design_without_code_block:
  "(extract_code_from_response text = None \<longleftrightarrow>
     text = None \<or> text = Some [] \<or>
     (\<exists>t. text = Some t
        \<and> \<not> (\<exists>pre opener b r. opener \<in> set (tagged_openers @ bare_openers)
                \<and> t = pre @ opener @ b @ fence @ r)))
   \<and> (\<forall>t c. text = Some t \<and> extract_code_from_response text = Some c \<longrightarrow>
        c = join [NL, NL] (findall tagged_openers t @ findall bare_openers t))
   \<and> (\<forall>t. t \<noteq> [] \<and> extract_code_from_response (Some t) = None \<longrightarrow>
        generate_design (Returns (Some t)) write_file request_prompt
          = (Inl (HTTPException 500 ''500: No code block found in AI response''), []))"
proof (intro conjI allI impI)
  show "extract_code_from_response text = None \<longleftrightarrow>
     text = None \<or> text = Some [] \<or>
     (\<exists>t. text = Some t
        \<and> \<not> (\<exists>pre opener b r. opener \<in> set (tagged_openers @ bare_openers)
                \<and> t = pre @ opener @ b @ fence @ r))"
    by (rule extract_code_None_iff)
next
  fix t c assume "text = Some t \<and> extract_code_from_response text = Some c"
  then show "c = join [NL, NL] (findall tagged_openers t @ findall bare_openers t)"
    by (auto simp: extract_code_from_response_def Let_def split: if_splits)
next
  fix t assume "t \<noteq> [] \<and> extract_code_from_response (Some t) = None"
  then show "generate_design (Returns (Some t)) write_file request_prompt
          = (Inl (HTTPException 500 ''500: No code block found in AI response''), [])"
    by (simp add: generate_design_no_code)
qed

theorem generate_design_without_code_block_witness:
  "extract_code_from_response (Some ''Here is your design.'') = None
   \<and> generate_design (Returns (Some ''Here is your design.'')) (Returns ()) ''draw a circle''
       = (Inl (HTTPException 500 ''500: No code block found in AI response''), [])
   \<and> extract_code_from_response
        (Some (''Sure!'' @ [NL] @ fence @ ''js'' @ [NL] @ ''let a = 1;'' @ [NL] @ fence
               @ [NL] @ ''then'' @ [NL] @ fence @ [NL] @ ''plain'' @ fence))
       = Some (''let a = 1;'' @ [NL] @ [NL, NL] @ ''then'' @ [NL])"
proof -
  let ?t = "''Here is your design.''"
  let ?u = "''Sure!'' @ [NL] @ fence @ ''js'' @ [NL] @ ''let a = 1;'' @ [NL] @ fence
               @ [NL] @ ''then'' @ [NL] @ fence @ [NL] @ ''plain'' @ fence"
  have none: "extract_code_from_response (Some ?t) = None" by code_simp
  have ne: "?t \<noteq> []" by simp
  from generate_design_without_code_block
    [of "Some ?t" "Returns ()" "''draw a circle''"]
    none ne
  have 1: "generate_design (Returns (Some ?t)) (Returns ()) ''draw a circle''
       = (Inl (HTTPException 500 ''500: No code block found in AI response''), [])"
    by blast
  define u where "u = ''Sure!'' @ [NL] @ fence @ ''js'' @ [NL] @ ''let a = 1;'' @ [NL] @ fence
               @ [NL] @ ''then'' @ [NL] @ fence @ [NL] @ ''plain'' @ fence"
  have blocks: "findall tagged_openers u = [''let a = 1;'' @ [NL]]"
    "findall bare_openers u = [''then'' @ [NL]]"
    unfolding u_def by code_simp+
  have "u \<noteq> []" by (simp add: u_def)
  then have "extract_code_from_response (Some u) \<noteq> None"
    by (simp add: extract_code_from_response_def Let_def blocks)
  then obtain c where c: "extract_code_from_response (Some u) = Some c" by blast
  with generate_design_without_code_block
    [of "Some u" "Returns ()" "''draw a circle''"]
  have "c = join [NL, NL] (findall tagged_openers u @ findall bare_openers u)" by blast
  then have "c = ''let a = 1;'' @ [NL] @ [NL, NL] @ ''then'' @ [NL]"
    unfolding blocks by simp
  with c have 2: "extract_code_from_response (Some ?u)
       = Some (''let a = 1;'' @ [NL] @ [NL, NL] @ ''then'' @ [NL])"
    unfolding u_def by simp
  from none 1 2 show ?thesis by blast
qed

end
